theory Spec2Isabelle
  imports Main
begin

section \<open>Bytes, buffers and faults\<close>

text \<open>
  The readers of \<^verbatim>\<open>fastqreader.cpp\<close> work on raw byte buffers. A buffer is a
  list of bytes whose length is the buffer's capacity; an access outside of it, which is
  undefined behaviour in the source, is a fault of the model, and so are a failed
  \<^verbatim>\<open>ASSERT\<close> and the overflow of a signed counter.
\<close>

abbreviation LF :: char where "LF \<equiv> CHR 0x0A"
abbreviation CR :: char where "CR \<equiv> CHR 0x0D"
abbreviation AT :: char where "AT \<equiv> CHR ''@''"
abbreviation PLUS :: char where "PLUS \<equiv> CHR ''+''"

datatype fault = OutOfBounds int | AssertionFailed | SignedOverflow

text \<open>\<^verbatim>\<open>data_[i]\<close> for an unsigned index.\<close>

definition rd :: "char list \<Rightarrow> nat \<Rightarrow> fault + char" where
  "rd buf i = (if i < length buf then Inr (buf ! i) else Inl (OutOfBounds (int i)))"

text \<open>
  \<^verbatim>\<open>ASSERT\<close> is a macro of a header that is not part of the source file. The flag
  \<open>chk\<close> says whether it is compiled to a check (which aborts) or to nothing.
\<close>

definition ASSERT :: "bool \<Rightarrow> bool \<Rightarrow> fault + unit" where
  "ASSERT chk c = (if chk \<and> \<not> c then Inl AssertionFailed else Inr ())"

section \<open>SkipToEol and GetNextRecordPos\<close>

text \<open>
  The loop of \<^verbatim>\<open>SkipToEol\<close>:
  \<^verbatim>\<open>while (data_[pos_] != '\n' && data_[pos_] != '\r' && pos_ < size_) ++pos_;\<close>
  The byte is read before the bound is tested, as the source's condition orders it.
\<close>

function SkipToEol_loop :: "char list \<Rightarrow> nat \<Rightarrow> nat \<Rightarrow> fault + nat" where
  "SkipToEol_loop buf pos sz =
     (case rd buf pos of
        Inl e \<Rightarrow> Inl e
      | Inr c \<Rightarrow>
          if c \<noteq> LF \<and> c \<noteq> CR \<and> pos < sz
          then SkipToEol_loop buf (pos + 1) sz
          else Inr pos)"
  by pat_completeness auto
termination
  by (relation "measure (\<lambda>(buf, pos, sz). length buf - pos)")
     (auto simp: rd_def split: if_splits)

declare SkipToEol_loop.simps [simp del]

text \<open>
  \<^verbatim>\<open>SkipToEol(data_, pos_, size_)\<close>: \<open>pos\<close> is passed by reference and the member
  \<open>usesCrlf\<close> may be set, so the model returns the new position and the new flag.
\<close>

definition SkipToEol ::
  "bool \<Rightarrow> char list \<Rightarrow> nat \<Rightarrow> nat \<Rightarrow> bool \<Rightarrow> fault + (nat \<times> bool)" where
  "SkipToEol chk buf pos sz crlf =
     (case ASSERT chk (pos < sz) of
        Inl e \<Rightarrow> Inl e
      | Inr _ \<Rightarrow>
     (case SkipToEol_loop buf pos sz of
        Inl e \<Rightarrow> Inl e
      | Inr p \<Rightarrow>
     (case rd buf p of
        Inl e \<Rightarrow> Inl e
      | Inr c \<Rightarrow>
          if c = CR \<and> p < sz then
            (case rd buf (p + 1) of
               Inl e \<Rightarrow> Inl e
             | Inr d \<Rightarrow> if d = LF then Inr (p + 1, True) else Inr (p, crlf))
          else Inr (p, crlf))))"

lemma SkipToEol_loop_ge:
  "SkipToEol_loop buf pos sz = Inr p \<Longrightarrow> pos \<le> p \<and> p < length buf"
proof (induction buf pos sz rule: SkipToEol_loop.induct)
  case (1 buf pos sz)
  show ?case
  proof (cases "rd buf pos")
    case (Inl e)
    with "1.prems" show ?thesis by (simp add: SkipToEol_loop.simps [of buf pos])
  next
    case (Inr c)
    show ?thesis
    proof (cases "c \<noteq> LF \<and> c \<noteq> CR \<and> pos < sz")
      case True
      with Inr "1.prems" have "SkipToEol_loop buf (pos + 1) sz = Inr p"
        by (simp add: SkipToEol_loop.simps [of buf pos])
      with "1.IH" [OF Inr True] show ?thesis by simp
    next
      case False
      with Inr "1.prems" have "p = pos"
        by (auto simp: SkipToEol_loop.simps [of buf pos])
      moreover from Inr have "pos < length buf"
        by (simp add: rd_def split: if_splits)
      ultimately show ?thesis by simp
    qed
  qed
qed

lemma SkipToEol_ge:
  assumes "SkipToEol chk buf pos sz crlf = Inr (p, crlf')"
  shows "pos \<le> p \<and> p < length buf"
proof -
  from assms obtain q where q: "SkipToEol_loop buf pos sz = Inr q" and "q \<le> p"
    and "p < length buf"
    by (auto simp: SkipToEol_def rd_def split: sum.splits if_splits)
  with SkipToEol_loop_ge [OF q] show ?thesis by simp
qed

text \<open>
  The scan of \<^verbatim>\<open>GetNextRecordPos\<close> for a line that begins with \<open>@\<close>:
  \<^verbatim>\<open>while (data_[pos_] != '@') { SkipToEol(data_, pos_, size_); ++pos_; }\<close>
\<close>

function find_at ::
  "bool \<Rightarrow> char list \<Rightarrow> nat \<Rightarrow> nat \<Rightarrow> bool \<Rightarrow> fault + (nat \<times> bool)" where
  "find_at chk buf pos sz crlf =
     (case rd buf pos of
        Inl e \<Rightarrow> Inl e
      | Inr c \<Rightarrow>
          if c \<noteq> AT then
            (case SkipToEol chk buf pos sz crlf of
               Inl e \<Rightarrow> Inl e
             | Inr (p, crlf') \<Rightarrow> find_at chk buf (p + 1) sz crlf')
          else Inr (pos, crlf))"
  by pat_completeness auto
termination
proof (relation "measure (\<lambda>(chk, buf, pos, sz, crlf). Suc (length buf) - pos)",
       goal_cases)
  case 1
  show ?case by simp
next
  case (2 chk buf pos sz crlf c r p crlf')
  then have "SkipToEol chk buf pos sz crlf = Inr (p, crlf')" by simp
  from SkipToEol_ge [OF this] show ?case by (simp, arith)
qed

declare find_at.simps [simp del]

text \<open>
  \<^verbatim>\<open>GetNextRecordPos(data_, pos_, size_)\<close>. The message printed on the standard
  output before the final assertion does not change the result and is left out.
\<close>

definition GetNextRecordPos ::
  "bool \<Rightarrow> char list \<Rightarrow> nat \<Rightarrow> nat \<Rightarrow> bool \<Rightarrow> fault + (nat \<times> bool)" where
  "GetNextRecordPos chk buf pos sz crlf =
     (case SkipToEol chk buf pos sz crlf of
        Inl e \<Rightarrow> Inl e
      | Inr (p1, c1) \<Rightarrow>
     (case find_at chk buf (p1 + 1) sz c1 of
        Inl e \<Rightarrow> Inl e
      | Inr (pos0, c2) \<Rightarrow>
     (case SkipToEol chk buf pos0 sz c2 of
        Inl e \<Rightarrow> Inl e
      | Inr (p3, c3) \<Rightarrow>
     (case rd buf (p3 + 1) of
        Inl e \<Rightarrow> Inl e
      | Inr a \<Rightarrow>
          if a = AT then Inr (p3 + 1, c3)
          else
     (case SkipToEol chk buf (p3 + 1) sz c3 of
        Inl e \<Rightarrow> Inl e
      | Inr (p4, c4) \<Rightarrow>
     (case rd buf (p4 + 1) of
        Inl e \<Rightarrow> Inl e
      | Inr b \<Rightarrow>
     (case ASSERT chk (b = PLUS) of
        Inl e \<Rightarrow> Inl e
      | Inr _ \<Rightarrow> Inr (pos0, c4))))))))"


section \<open>FASTQ text\<close>

text \<open>
  The vocabulary of the input format: a line's text holds no terminator byte, the
  terminator is \<open>\n\<close>, \<open>\r\<close> or \<open>\r\n\<close>, and a record is four lines, the
  first beginning with \<open>@\<close> and the third with \<open>+\<close>. A sequence line does not begin
  with \<open>@\<close>; a quality line may.
\<close>

definition plain :: "string \<Rightarrow> bool" where
  "plain l = (LF \<notin> set l \<and> CR \<notin> set l)"

definition terminator :: "string \<Rightarrow> bool" where
  "terminator t = (t = [LF] \<or> t = [CR] \<or> t = [CR, LF])"

definition text_lines :: "string \<Rightarrow> string list \<Rightarrow> string" where
  "text_lines t ls = concat (map (\<lambda>l. l @ t) ls)"

definition no_at :: "string \<Rightarrow> bool" where
  "no_at l = (take 1 l \<noteq> [AT])"

datatype fastq_record =
  Record (rname: string) (rseq: string) (rstrand: string) (rqual: string)

definition wf_record :: "fastq_record \<Rightarrow> bool" where
  "wf_record r =
     (plain (rname r) \<and> plain (rseq r) \<and> plain (rstrand r) \<and> plain (rqual r)
      \<and> take 1 (rname r) = [AT] \<and> no_at (rseq r) \<and> take 1 (rstrand r) = [PLUS])"

definition ser :: "string \<Rightarrow> fastq_record \<Rightarrow> string" where
  "ser t r = text_lines t [rname r, rseq r, rstrand r, rqual r]"

lemma rd_drop: "drop P buf = s \<Longrightarrow> j < length s \<Longrightarrow> rd buf (P + j) = Inr (s ! j)"
  by (auto simp: rd_def)

lemma SkipToEol_loop_line:
  assumes "drop P buf = l @ e # rest" and "plain l" and "e = LF \<or> e = CR"
    and "P + length l < sz" and "j \<le> length l"
  shows "SkipToEol_loop buf (P + j) sz = Inr (P + length l)"
  using assms(5)
proof (induction "length l - j" arbitrary: j)
  case 0
  then have j: "j = length l" by simp
  have "rd buf (P + j) = Inr e"
    using rd_drop [OF assms(1), of j] by (simp add: j)
  then show ?case using assms(3) j by (subst SkipToEol_loop.simps) auto
next
  case (Suc n)
  then have j: "j < length l" by simp
  then have "rd buf (P + j) = Inr (l ! j)"
    using rd_drop [OF assms(1), of j] by (simp add: nth_append)
  moreover have "l ! j \<noteq> LF \<and> l ! j \<noteq> CR"
    using assms(2) j by (auto simp: plain_def dest: nth_mem)
  moreover have "P + j < sz" using j assms(4) by simp
  moreover have "SkipToEol_loop buf (P + Suc j) sz = Inr (P + length l)"
    using Suc j by (intro Suc.hyps(1)) auto
  ultimately show ?case by (subst SkipToEol_loop.simps) simp
qed

lemma SkipToEol_line:
  assumes "drop P buf = l @ t @ rest" and "plain l" and "terminator t"
    and "t = [CR] \<longrightarrow> rest \<noteq> [] \<and> hd rest \<noteq> LF"
    and "j \<le> length l"
  shows "SkipToEol chk buf (P + j) (length buf) crlf =
           Inr (P + length l + length t - 1, crlf \<or> t = [CR, LF])"
proof -
  obtain e t' where t: "t = e # t'" and e: "e = LF \<or> e = CR"
    using assms(3) by (auto simp: terminator_def)
  have d: "drop P buf = l @ e # (t' @ rest)" using assms(1) t by simp
  have len: "length (drop P buf) = length l + length t + length rest"
    using assms(1) by simp
  then have lt: "P + length l < length buf" using t by simp
  have loop: "SkipToEol_loop buf (P + j) (length buf) = Inr (P + length l)"
    by (rule SkipToEol_loop_line [OF d assms(2) e lt assms(5)])
  have r0: "rd buf (P + length l) = Inr e"
    using rd_drop [OF d, of "length l"] by simp
  have a: "ASSERT chk (P + j < length buf) = Inr ()"
    using lt assms(5) by (simp add: ASSERT_def)
  show ?thesis
  proof (cases "e = CR")
    case False
    then have "t = [LF]" using assms(3) t by (auto simp: terminator_def)
    with False show ?thesis using loop r0 a t by (simp add: SkipToEol_def)
  next
    case True
    have "t' @ rest \<noteq> []" using assms(3,4) t True by (auto simp: terminator_def)
    then have r1: "rd buf (P + length l + 1) = Inr (hd (t' @ rest))"
      using rd_drop [OF d, of "length l + 1"] by (simp add: nth_append hd_conv_nth add.assoc)
    show ?thesis
    proof (cases "t = [CR]")
      case c: True
      then have "hd (t' @ rest) \<noteq> LF" using assms(4) t by simp
      then show ?thesis using loop r0 r1 a c True lt by (simp add: SkipToEol_def)
    next
      case c: False
      then have "t = [CR, LF]" using assms(3) t True by (auto simp: terminator_def)
      then show ?thesis using loop r0 r1 a True lt t by (simp add: SkipToEol_def)
    qed
  qed
qed


lemma text_lines_simps [simp]:
  "text_lines t [] = []" "text_lines t (l # ls) = l @ t @ text_lines t ls"
  "text_lines t (xs @ ys) = text_lines t xs @ text_lines t ys"
  by (simp_all add: text_lines_def)

lemma drop_add_append:
  "drop P buf = xs @ ys \<Longrightarrow> drop (P + length xs) buf = ys"
  by (metis add.commute append_eq_conv_conj drop_drop)

lemma drop_add_append2:
  "drop P buf = xs @ ys @ zs \<Longrightarrow> drop (P + length (xs @ ys)) buf = zs"
  using drop_add_append [of P buf "xs @ ys" zs] by simp

lemma SkipToEol_next_line:
  assumes "drop P buf = l @ t @ rest" and "plain l" and "terminator t"
    and "t = [CR] \<longrightarrow> rest \<noteq> [] \<and> hd rest \<noteq> LF"
    and "j < length (l @ t)"
  shows "\<exists>p c. SkipToEol chk buf (P + j) (length buf) crlf = Inr (p, c)
           \<and> p + 1 = P + length (l @ t) \<and> (c = crlf \<or> c = (crlf \<or> t = [CR, LF]))"
proof (cases "j \<le> length l")
  case True
  from SkipToEol_line [OF assms(1-4) True, of chk crlf] assms(3)
  show ?thesis by (auto simp: terminator_def)
next
  case False
  with assms(3,5) have t: "t = [CR, LF]" and j: "j = length l + 1"
    by (auto simp: terminator_def)
  have "drop (P + length (l @ [CR])) buf = [LF] @ rest"
    by (rule drop_add_append2) (use assms(1) t in simp)
  then have d: "drop (P + length l + 1) buf = [] @ [LF] @ rest"
    by (simp add: add.assoc)
  have "SkipToEol chk buf (P + length l + 1 + 0) (length buf) crlf =
           Inr (P + length l + 1 + length ([]::string) + length [LF] - 1, crlf \<or> [LF] = [CR, LF])"
    by (rule SkipToEol_line [OF d]) (simp_all add: plain_def terminator_def)
  then show ?thesis using t j by (simp add: add.assoc)
qed


lemma hd_line_not_LF:
  "plain l \<Longrightarrow> t = [CR] \<Longrightarrow> hd (l @ t @ r) \<noteq> LF"
  by (cases l) (auto simp: plain_def)

lemma hd_line_not_AT:
  "no_at l \<Longrightarrow> terminator t \<Longrightarrow> hd (l @ t @ r) \<noteq> AT"
  by (cases l) (auto simp: no_at_def terminator_def)

lemma hd_lines_not_LF:
  assumes "list_all plain ls" and "t = [CR]" and "c \<noteq> LF"
  shows "hd (text_lines t ls @ c # rest) \<noteq> LF"
proof (cases ls)
  case Nil
  then show ?thesis using assms(3) by simp
next
  case (Cons l ls')
  then show ?thesis using assms(1,2) hd_line_not_LF [of l t] by simp
qed

lemma find_at_lines:
  assumes "drop P buf = text_lines t ls @ AT # rest"
    and "list_all plain ls" and "list_all no_at ls" and "terminator t"
  shows "find_at chk buf P (length buf) crlf =
           Inr (P + length (text_lines t ls), crlf \<or> (ls \<noteq> [] \<and> t = [CR, LF]))"
  using assms(1-3)
proof (induction ls arbitrary: P crlf)
  case Nil
  then have "rd buf P = Inr AT" using rd_drop [of P buf _ 0] by simp
  then show ?case by (subst find_at.simps) simp
next
  case (Cons l ls)
  let ?rest = "text_lines t ls @ AT # rest"
  have d: "drop P buf = l @ t @ ?rest" using Cons.prems(1) by simp
  have pl: "plain l" and na: "no_at l" and pls: "list_all plain ls" and nas: "list_all no_at ls"
    using Cons.prems(2,3) by simp_all
  have "length (drop P buf) > 0" using d assms(4) by (auto simp: terminator_def)
  then have "rd buf P = Inr (hd (l @ t @ ?rest))"
    using rd_drop [of P buf "drop P buf" 0] d by (simp add: hd_conv_nth)
  moreover have "hd (l @ t @ ?rest) \<noteq> AT" by (rule hd_line_not_AT [OF na assms(4)])
  moreover have "SkipToEol chk buf (P + 0) (length buf) crlf =
      Inr (P + length l + length t - 1, crlf \<or> t = [CR, LF])"
    by (rule SkipToEol_line [OF d pl assms(4)]) (use hd_lines_not_LF [OF pls] in auto)
  moreover have "P + length l + length t - 1 + 1 = P + length (l @ t)"
    using assms(4) by (auto simp: terminator_def)
  moreover have "find_at chk buf (P + length (l @ t)) (length buf) (crlf \<or> t = [CR, LF]) =
      Inr (P + length (l @ t) + length (text_lines t ls),
           (crlf \<or> t = [CR, LF]) \<or> (ls \<noteq> [] \<and> t = [CR, LF]))"
    by (rule Cons.IH [OF _ pls nas]) (use d drop_add_append [of P buf "l @ t" ?rest] in simp)
  ultimately show ?case by (subst find_at.simps) (auto simp: add.assoc)
qed


lemma rd_at: "drop P buf = c # rest \<Longrightarrow> rd buf P = Inr c"
  using rd_drop [of P buf "c # rest" 0] by simp

lemma rd_hd: "drop P buf = xs \<Longrightarrow> xs \<noteq> [] \<Longrightarrow> rd buf P = Inr (hd xs)"
  by (cases xs) (auto intro: rd_at)

lemma SkipToEol_whole_line:
  assumes "drop P buf = l @ t @ rest" and "plain l" and "terminator t"
    and "t = [CR] \<longrightarrow> rest \<noteq> [] \<and> hd rest \<noteq> LF"
  shows "\<exists>p. SkipToEol chk buf P (length buf) crlf = Inr (p, crlf \<or> t = [CR, LF])
           \<and> p + 1 = P + length (l @ t)"
  using SkipToEol_line [OF assms, of 0 chk crlf] assms(3) by (auto simp: terminator_def)

text \<open>The probe when the line found is a name line: two more lines, then \<open>+\<close>.\<close>

lemma GetNextRecordPos_case_name:
  assumes d: "drop P buf = l @ t @ text_lines t rem @ (AT # n) @ t @ s @ t @ PLUS # rest"
    and l: "plain l" and j: "j < length (l @ t)" and t: "terminator t"
    and rem: "list_all plain rem" "list_all no_at rem"
    and n: "plain (AT # n)" and s: "plain s" "no_at s"
  shows "GetNextRecordPos chk buf (P + j) (length buf) crlf =
           Inr (P + length (l @ t @ text_lines t rem), crlf \<or> t = [CR, LF])"
proof -
  let ?tcrlf = "t = [CR, LF]"
  let ?P1 = "P + length (l @ t)"
  let ?P2 = "?P1 + length (text_lines t rem)"
  let ?P3 = "?P2 + length ((AT # n) @ t)"
  let ?P4 = "?P3 + length (s @ t)"
  have cr1: "t = [CR] \<longrightarrow> text_lines t rem @ (AT # n) @ t @ s @ t @ PLUS # rest \<noteq> []
      \<and> hd (text_lines t rem @ (AT # n) @ t @ s @ t @ PLUS # rest) \<noteq> LF"
    using hd_lines_not_LF [OF rem(1), of t AT] by auto
  obtain p1 c1 where 1: "SkipToEol chk buf (P + j) (length buf) crlf = Inr (p1, c1)"
    and p1: "p1 + 1 = ?P1" and c1: "c1 = crlf \<or> c1 = (crlf \<or> ?tcrlf)"
    using SkipToEol_next_line [OF d l t cr1 j, of chk crlf] by blast
  have d1: "drop ?P1 buf = text_lines t rem @ AT # (n @ t @ s @ t @ PLUS # rest)"
    using drop_add_append2 [OF d] by simp
  have 2: "find_at chk buf ?P1 (length buf) c1 = Inr (?P2, c1 \<or> (rem \<noteq> [] \<and> ?tcrlf))"
    by (rule find_at_lines [OF d1 rem t])
  have d2: "drop ?P2 buf = (AT # n) @ t @ (s @ t @ PLUS # rest)"
    using drop_add_append [OF d1] by simp
  obtain p3 where 3: "SkipToEol chk buf ?P2 (length buf) (c1 \<or> (rem \<noteq> [] \<and> ?tcrlf)) =
      Inr (p3, (c1 \<or> (rem \<noteq> [] \<and> ?tcrlf)) \<or> ?tcrlf)" and p3: "p3 + 1 = ?P3"
    using SkipToEol_whole_line [OF d2 n t] hd_line_not_LF [OF s(1), of t] by blast
  have d3: "drop ?P3 buf = s @ t @ (PLUS # rest)"
    by (rule drop_add_append2 [OF d2])
  have 4: "rd buf ?P3 = Inr (hd (s @ t @ PLUS # rest))"
    by (rule rd_hd [OF d3]) simp
  have 5: "hd (s @ t @ PLUS # rest) \<noteq> AT" by (rule hd_line_not_AT [OF s(2) t])
  obtain p4 where 6: "SkipToEol chk buf ?P3 (length buf) ((c1 \<or> (rem \<noteq> [] \<and> ?tcrlf)) \<or> ?tcrlf) =
      Inr (p4, ((c1 \<or> (rem \<noteq> [] \<and> ?tcrlf)) \<or> ?tcrlf) \<or> ?tcrlf)" and p4: "p4 + 1 = ?P4"
    using SkipToEol_whole_line [OF d3 s(1) t] by auto
  have 7: "rd buf ?P4 = Inr PLUS"
    by (rule rd_at [OF drop_add_append2 [OF d3]])
  have "GetNextRecordPos chk buf (P + j) (length buf) crlf =
      Inr (?P2, ((c1 \<or> (rem \<noteq> [] \<and> ?tcrlf)) \<or> ?tcrlf) \<or> ?tcrlf)"
    unfolding GetNextRecordPos_def 1 p1 sum.case prod.case 2 3 p3 4 6 p4 7
    using 5 by (simp add: ASSERT_def)
  then show ?thesis using c1 by (auto simp: add.assoc)
qed

text \<open>The probe when the line found is a quality line that begins with \<open>@\<close>.\<close>

lemma GetNextRecordPos_case_quality:
  assumes d: "drop P buf = l @ t @ text_lines t rem @ (AT # q) @ t @ AT # rest"
    and l: "plain l" and j: "j < length (l @ t)" and t: "terminator t"
    and rem: "list_all plain rem" "list_all no_at rem"
    and q: "plain (AT # q)"
  shows "GetNextRecordPos chk buf (P + j) (length buf) crlf =
           Inr (P + length (l @ t @ text_lines t rem @ (AT # q) @ t), crlf \<or> t = [CR, LF])"
proof -
  let ?tcrlf = "t = [CR, LF]"
  let ?P1 = "P + length (l @ t)"
  let ?P2 = "?P1 + length (text_lines t rem)"
  let ?P3 = "?P2 + length ((AT # q) @ t)"
  have cr1: "t = [CR] \<longrightarrow> text_lines t rem @ (AT # q) @ t @ AT # rest \<noteq> []
      \<and> hd (text_lines t rem @ (AT # q) @ t @ AT # rest) \<noteq> LF"
    using hd_lines_not_LF [OF rem(1), of t AT] by auto
  obtain p1 c1 where 1: "SkipToEol chk buf (P + j) (length buf) crlf = Inr (p1, c1)"
    and p1: "p1 + 1 = ?P1" and c1: "c1 = crlf \<or> c1 = (crlf \<or> ?tcrlf)"
    using SkipToEol_next_line [OF d l t cr1 j, of chk crlf] by blast
  have d1: "drop ?P1 buf = text_lines t rem @ AT # (q @ t @ AT # rest)"
    using drop_add_append2 [OF d] by simp
  have 2: "find_at chk buf ?P1 (length buf) c1 = Inr (?P2, c1 \<or> (rem \<noteq> [] \<and> ?tcrlf))"
    by (rule find_at_lines [OF d1 rem t])
  have d2: "drop ?P2 buf = (AT # q) @ t @ (AT # rest)"
    using drop_add_append [OF d1] by simp
  obtain p3 where 3: "SkipToEol chk buf ?P2 (length buf) (c1 \<or> (rem \<noteq> [] \<and> ?tcrlf)) =
      Inr (p3, (c1 \<or> (rem \<noteq> [] \<and> ?tcrlf)) \<or> ?tcrlf)" and p3: "p3 + 1 = ?P3"
    using SkipToEol_whole_line [OF d2 q t] by auto
  have 4: "rd buf ?P3 = Inr AT"
    by (rule rd_at [OF drop_add_append2 [OF d2]])
  have "GetNextRecordPos chk buf (P + j) (length buf) crlf =
      Inr (?P3, (c1 \<or> (rem \<noteq> [] \<and> ?tcrlf)) \<or> ?tcrlf)"
    unfolding GetNextRecordPos_def 1 p1 sum.case prod.case 2 3 p3 4 by simp
  then show ?thesis using c1 by (auto simp: add.assoc)
qed


lemma take1_eq: "take (Suc 0) xs = [c] \<longleftrightarrow> (\<exists>ys. xs = c # ys)"
  by (cases xs) auto

lemma GetNextRecordPos_in_line:
  assumes d: "drop P buf = l @ t @ text_lines t rem @ ser t r1 @ post"
    and l: "plain l" and j: "j < length (l @ t)" and t: "terminator t"
    and rem: "list_all plain rem" "list_all no_at (butlast rem)"
    and r1: "wf_record r1"
  shows "GetNextRecordPos chk buf (P + j) (length buf) crlf =
           Inr (P + length (l @ t @ text_lines t rem), crlf \<or> t = [CR, LF])"
proof -
  obtain n p where n: "rname r1 = AT # n" and p: "rstrand r1 = PLUS # p"
    using r1 by (auto simp: wf_record_def take1_eq)
  have pn: "plain (AT # n)" and ps: "plain (rseq r1)" and ns: "no_at (rseq r1)"
    using r1 n by (auto simp: wf_record_def)
  show ?thesis
  proof (cases "rem = [] \<or> no_at (last rem)")
    case True
    then have na: "list_all no_at rem"
      using rem(2) by (cases rem rule: rev_cases) auto
    have d': "drop P buf = l @ t @ text_lines t rem @ (AT # n) @ t @ rseq r1 @ t @
        PLUS # (p @ t @ rqual r1 @ t @ post)"
      using d n p by (simp add: ser_def)
    show ?thesis
      by (rule GetNextRecordPos_case_name [OF d' l j t rem(1) na pn ps ns])
  next
    case False
    then obtain rem' q where rq: "rem = rem' @ [AT # q]"
      by (cases rem rule: rev_cases) (auto simp: no_at_def take1_eq)
    have pq: "plain (AT # q)" and prem': "list_all plain rem'" and na: "list_all no_at rem'"
      using rem rq by auto
    have d': "drop P buf = l @ t @ text_lines t rem' @ (AT # q) @ t @
        AT # (n @ t @ rseq r1 @ t @ rstrand r1 @ t @ rqual r1 @ t @ post)"
      using d n rq by (simp add: ser_def)
    have "GetNextRecordPos chk buf (P + j) (length buf) crlf =
        Inr (P + length (l @ t @ text_lines t rem' @ (AT # q) @ t), crlf \<or> t = [CR, LF])"
      by (rule GetNextRecordPos_case_quality [OF d' l j t prem' na pq])
    then show ?thesis using rq by simp
  qed
qed

text \<open>The search started anywhere in a record that is followed by another one.\<close>

lemma GetNextRecordPos_record:
  assumes t: "terminator t" and r0: "wf_record r0" and r1: "wf_record r1"
    and k: "k < length (ser t r0)"
    and buf: "buf = pre @ ser t r0 @ ser t r1 @ post"
  shows "GetNextRecordPos chk buf (length pre + k) (length buf) crlf =
           Inr (length pre + length (ser t r0), crlf \<or> t = [CR, LF])"
proof -
  let ?n = "rname r0" and ?s = "rseq r0" and ?p = "rstrand r0" and ?q = "rqual r0"
  have pl: "plain ?n" "plain ?s" "plain ?p" "plain ?q" and ns: "no_at ?s" and np: "no_at ?p"
    using r0 by (auto simp: wf_record_def no_at_def)
  have d0: "drop (length pre) buf =
      ?n @ t @ text_lines t [?s, ?p, ?q] @ ser t r1 @ post"
    using buf by (simp add: ser_def)
  have d1: "drop (length pre + length (?n @ t)) buf =
      ?s @ t @ text_lines t [?p, ?q] @ ser t r1 @ post"
    using drop_add_append2 [OF d0] by simp
  have d2: "drop (length pre + length (?n @ t) + length (?s @ t)) buf =
      ?p @ t @ text_lines t [?q] @ ser t r1 @ post"
    using drop_add_append2 [OF d1] by simp
  have d3: "drop (length pre + length (?n @ t) + length (?s @ t) + length (?p @ t)) buf =
      ?q @ t @ text_lines t [] @ ser t r1 @ post"
    using drop_add_append2 [OF d2] by simp
  consider (name) "k < length (?n @ t)"
    | (seq) j where "k = length (?n @ t) + j" "j < length (?s @ t)"
    | (strand) j where "k = length (?n @ t) + length (?s @ t) + j" "j < length (?p @ t)"
    | (qual) j where "k = length (?n @ t) + length (?s @ t) + length (?p @ t) + j"
        "j < length (?q @ t)"
  proof -
    define a b c e where "a = length (?n @ t)" and "b = length (?s @ t)"
      and "c = length (?p @ t)" and "e = length (?q @ t)"
    have "length (ser t r0) = a + b + c + e"
      by (simp add: ser_def a_def b_def c_def e_def)
    with k have "k < a \<or> (k = a + (k - a) \<and> k - a < b)
        \<or> (k = a + b + (k - a - b) \<and> k - a - b < c)
        \<or> (k = a + b + c + (k - a - b - c) \<and> k - a - b - c < e)"
      by linarith
    then show ?thesis using that unfolding a_def b_def c_def e_def by blast
  qed
  then show ?thesis
  proof cases
    case name
    have "GetNextRecordPos chk buf (length pre + k) (length buf) crlf =
        Inr (length pre + length (?n @ t @ text_lines t [?s, ?p, ?q]), crlf \<or> t = [CR, LF])"
      by (rule GetNextRecordPos_in_line [OF d0 pl(1) name t _ _ r1]) (use pl ns np in simp_all)
    then show ?thesis by (simp add: ser_def)
  next
    case (seq j)
    have "GetNextRecordPos chk buf (length pre + length (?n @ t) + j) (length buf) crlf =
        Inr (length pre + length (?n @ t) + length (?s @ t @ text_lines t [?p, ?q]),
             crlf \<or> t = [CR, LF])"
      by (rule GetNextRecordPos_in_line [OF d1 pl(2) seq(2) t _ _ r1]) (use pl np in simp_all)
    then show ?thesis using seq(1) by (simp add: ser_def add.assoc)
  next
    case (strand j)
    have "GetNextRecordPos chk buf
        (length pre + length (?n @ t) + length (?s @ t) + j) (length buf) crlf =
        Inr (length pre + length (?n @ t) + length (?s @ t) + length (?p @ t @ text_lines t [?q]),
             crlf \<or> t = [CR, LF])"
      by (rule GetNextRecordPos_in_line [OF d2 pl(3) strand(2) t _ _ r1]) (use pl in simp_all)
    then show ?thesis using strand(1) by (simp add: ser_def add.assoc)
  next
    case (qual j)
    have "GetNextRecordPos chk buf
        (length pre + length (?n @ t) + length (?s @ t) + length (?p @ t) + j) (length buf) crlf =
        Inr (length pre + length (?n @ t) + length (?s @ t) + length (?p @ t) +
             length (?q @ t @ text_lines t []), crlf \<or> t = [CR, LF])"
      by (rule GetNextRecordPos_in_line [OF d3 pl(4) qual(2) t _ _ r1]) simp_all
    then show ?thesis using qual(1) by (simp add: ser_def add.assoc)
  qed
qed

text \<open>
  Claim C3. In a buffer that holds two consecutive well-formed four-line records \<open>r0\<close>
  and \<open>r1\<close> (any of the three terminators, used throughout), \<^verbatim>\<open>GetNextRecordPos\<close>
  started at any byte of \<open>r0\<close>, be it in a line's text or in its terminator, returns
  the offset of the \<open>@\<close> that begins the name line of \<open>r1\<close>, also when the quality
  line of \<open>r0\<close> begins with \<open>@\<close>; no access is out of bounds and no assertion
  fails. The flag \<open>usesCrlf\<close> is set when the terminator is \<open>\r\n\<close>.
\<close>

theorem GetNextRecordPos_next_record:
  assumes t: "terminator t" and r0: "wf_record r0" and r1: "wf_record r1"
    and k: "k < length (ser t r0)"
    and buf: "buf = pre @ ser t r0 @ ser t r1 @ post"
  shows "GetNextRecordPos chk buf (length pre + k) (length buf) crlf =
           Inr (length pre + length (ser t r0), crlf \<or> t = [CR, LF])"
  by (rule GetNextRecordPos_record [OF t r0 r1 k buf])

text \<open>
  A witness: the position is in the sequence line of a record whose quality line is
  \<open>@I\<close>; the result is the start of the second record, not of that quality line.
\<close>

theorem GetNextRecordPos_next_record_witness:
  "terminator [LF]
   \<and> wf_record (Record ''@a'' ''AC'' ''+'' ''@I'')
   \<and> wf_record (Record ''@b'' ''GT'' ''+'' ''II'')
   \<and> 4 < length (ser [LF] (Record ''@a'' ''AC'' ''+'' ''@I''))
   \<and> GetNextRecordPos True
        (ser [LF] (Record ''@a'' ''AC'' ''+'' ''@I'') @ ser [LF] (Record ''@b'' ''GT'' ''+'' ''II''))
        4 22 False = Inr (11, False)"
proof -
  let ?r0 = "Record ''@a'' ''AC'' ''+'' ''@I''" and ?r1 = "Record ''@b'' ''GT'' ''+'' ''II''"
  have t: "terminator [LF]" by (simp add: terminator_def)
  have r0: "wf_record ?r0" and r1: "wf_record ?r1"
    by (simp_all add: wf_record_def plain_def no_at_def)
  have k: "4 < length (ser [LF] ?r0)" by (simp add: ser_def)
  have b: "ser [LF] ?r0 @ ser [LF] ?r1 = [] @ ser [LF] ?r0 @ ser [LF] ?r1 @ []" by simp
  have n: "length (ser [LF] ?r0 @ ser [LF] ?r1) = 22" "length (ser [LF] ?r0) = 11"
    by (simp_all add: ser_def)
  from GetNextRecordPos_next_record [OF t r0 r1 k b, of True False]
  have "GetNextRecordPos True (ser [LF] ?r0 @ ser [LF] ?r1) 4 22 False = Inr (11, False)"
    unfolding n by simp
  with t r0 r1 k show ?thesis by blast
qed

text \<open>
  Claim C6 (refuted on the code). \<^verbatim>\<open>SkipToEol\<close> reads \<^verbatim>\<open>data_[pos_]\<close> before it
  tests \<^verbatim>\<open>pos_ < size_\<close>: on a buffer of \<open>size_ = 3\<close> bytes without a terminator,
  entered with \<open>pos_ = 0 < size_\<close>, it reads index 3. \<^verbatim>\<open>GetNextRecordPos\<close> on a
  buffer that ends with its only terminator reads index \<open>size_\<close> as well, whether or
  not assertions are checked.
\<close>

theorem SkipToEol_reads_past_size:
  "SkipToEol chk ''abc'' 0 3 crlf = Inl (OutOfBounds 3)
   \<and> GetNextRecordPos chk (''ab'' @ [LF]) 0 3 crlf = Inl (OutOfBounds 3)"
  by (simp add: GetNextRecordPos_def find_at.simps SkipToEol_def ASSERT_def
      SkipToEol_loop.simps rd_def)

section \<open>The line reader and the record reader\<close>

text \<open>\<^verbatim>\<open>buf[i]\<close> for a signed index.\<close>

definition rdi :: "char list \<Rightarrow> int \<Rightarrow> fault + char" where
  "rdi buf i = (if 0 \<le> i then rd buf (nat i) else Inl (OutOfBounds i))"

text \<open>\<^verbatim>\<open>#define FQ_BUF_SIZE (1<<20)\<close>\<close>

definition FQ_BUF_SIZE :: int where
  "FQ_BUF_SIZE = 2 ^ 20"

text \<open>
  The members of \<^verbatim>\<open>FastqReader\<close> that the reading functions use. Of the file
  (\<open>mFile\<close>, or \<open>mZipFile\<close> when \<open>mZipped\<close>) the model keeps the bytes not yet
  delivered, for a compressed file the decompressed ones; a failing \<^verbatim>\<open>gzread\<close>, which
  ends the process, is not modelled. \<open>mZipFile_null\<close> says that \<open>mZipFile\<close> is
  \<^verbatim>\<open>NULL\<close>. Of \<open>mBuf\<close> the model keeps the \<open>mBufDataLen\<close> bytes the last read
  filled: an access outside of them is a fault.
\<close>

record FastqReader =
  mFile :: "char list"
  mZipped :: bool
  mZipFile_null :: bool
  mPhred64 :: bool
  mHasQuality :: bool
  mBuf :: "char list"
  mBufDataLen :: int
  mBufUsedLen :: int
  mHasNoLineBreakAtEnd :: bool

text \<open>
  \<^verbatim>\<open>readToBuf()\<close>. When fewer than \<^verbatim>\<open>FQ_BUF_SIZE\<close> bytes were read it looks at
  \<^verbatim>\<open>mBuf[mBufDataLen - 1]\<close>, also when nothing was read.
\<close>

definition readToBuf :: "FastqReader \<Rightarrow> fault + FastqReader" where
  "readToBuf r =
     (let got = take (nat FQ_BUF_SIZE) (mFile r);
          r1 = r\<lparr>mFile := drop (nat FQ_BUF_SIZE) (mFile r), mBuf := got,
                 mBufDataLen := int (length got), mBufUsedLen := 0\<rparr>
      in if mBufDataLen r1 < FQ_BUF_SIZE then
           (case rdi (mBuf r1) (mBufDataLen r1 - 1) of
              Inl e \<Rightarrow> Inl e
            | Inr c \<Rightarrow> Inr (if c \<noteq> LF then r1\<lparr>mHasNoLineBreakAtEnd := True\<rparr> else r1))
         else Inr r1)"

text \<open>
  \<^verbatim>\<open>eof()\<close> is \<^verbatim>\<open>feof(mFile)\<close> (or \<^verbatim>\<open>gzeof(mZipFile)\<close>). The file is read by
  \<^verbatim>\<open>readToBuf\<close> only, always for \<^verbatim>\<open>FQ_BUF_SIZE\<close> bytes, and the constructor
  calls it once: the end-of-file indicator is set exactly when the last read delivered
  fewer bytes than that.
\<close>

definition FastqReader_eof :: "FastqReader \<Rightarrow> bool" where
  "FastqReader_eof r = (mBufDataLen r < FQ_BUF_SIZE)"

text \<open>
  The scan that \<^verbatim>\<open>getLine\<close> makes twice:
  \<^verbatim>\<open>while (end < mBufDataLen) { if (mBuf[end] != '\r' && mBuf[end] != '\n') end++; else break; }\<close>
\<close>

function scan_eol :: "char list \<Rightarrow> int \<Rightarrow> int \<Rightarrow> fault + int" where
  "scan_eol buf n e =
     (if e < n then
        (case rdi buf e of
           Inl x \<Rightarrow> Inl x
         | Inr c \<Rightarrow> if c \<noteq> CR \<and> c \<noteq> LF then scan_eol buf n (e + 1) else Inr e)
      else Inr e)"
  by pat_completeness auto
termination
  by (relation "measure (\<lambda>(buf, n, e). nat (n - e))") auto

declare scan_eol.simps [simp del]

text \<open>
  \<^verbatim>\<open>string(mBuf + start, len)\<close> and \<^verbatim>\<open>str.append(mBuf + start, len)\<close>: the
  bytes copied. A length of zero reads nothing.
\<close>

definition mk_string :: "char list \<Rightarrow> int \<Rightarrow> int \<Rightarrow> fault + string" where
  "mk_string buf start len =
     (if len = 0 then Inr []
      else if 0 \<le> start \<and> 0 < len \<and> start + len \<le> int (length buf)
      then Inr (take (nat len) (drop (nat start) buf))
      else Inl (OutOfBounds (start + len)))"

text \<open>
  The loop \<^verbatim>\<open>while (true)\<close> of \<^verbatim>\<open>getLine\<close>, entered when a full buffer holds no
  terminator from \<open>start\<close> on; \<open>str\<close> is the text gathered so far. Here the \<open>\r\n\<close>
  step tests \<^verbatim>\<open>mBuf[end] == '\n'\<close> only.
\<close>

function getLine_refill :: "string \<Rightarrow> FastqReader \<Rightarrow> fault + (string \<times> FastqReader)" where
  "getLine_refill str r =
     (case readToBuf r of
        Inl e \<Rightarrow> Inl e
      | Inr r1 \<Rightarrow>
     (case scan_eol (mBuf r1) (mBufDataLen r1) 0 of
        Inl e \<Rightarrow> Inl e
      | Inr end \<Rightarrow>
          if end < mBufDataLen r1 \<or> mBufDataLen r1 < FQ_BUF_SIZE then
            (case mk_string (mBuf r1) 0 (end - 0) of
               Inl e \<Rightarrow> Inl e
             | Inr s \<Rightarrow>
                 if end + 1 < mBufDataLen r1 - 1 then
                   (case rdi (mBuf r1) (end + 1) of
                      Inl e \<Rightarrow> Inl e
                    | Inr b \<Rightarrow>
                        Inr (str @ s, r1\<lparr>mBufUsedLen := (if b = LF then end + 2 else end + 1)\<rparr>))
                 else Inr (str @ s, r1\<lparr>mBufUsedLen := end + 1\<rparr>))
          else
            (case mk_string (mBuf r1) 0 (mBufDataLen r1) of
               Inl e \<Rightarrow> Inl e
             | Inr s \<Rightarrow> getLine_refill (str @ s) r1)))"
  by pat_completeness auto
termination
proof (relation "measure (\<lambda>(str, r). length (mFile r))", goal_cases)
  case 1
  show ?case by simp
next
  case (2 str r r1 e s)
  from 2(1) have "mFile r1 = drop (nat FQ_BUF_SIZE) (mFile r)"
    and "mBufDataLen r1 = int (length (take (nat FQ_BUF_SIZE) (mFile r)))"
    by (auto simp: readToBuf_def Let_def split: if_splits sum.splits)
  with 2(3) show ?case by (auto simp: FQ_BUF_SIZE_def)
qed

declare getLine_refill.simps [simp del]

text \<open>
  \<^verbatim>\<open>getLine()\<close>: the line and the reader afterwards. The static counter \<open>c\<close> is
  never read and is left out.
\<close>

definition getLine :: "FastqReader \<Rightarrow> fault + (string \<times> FastqReader)" where
  "getLine r =
     (let start = mBufUsedLen r in
      case scan_eol (mBuf r) (mBufDataLen r) start of
        Inl e \<Rightarrow> Inl e
      | Inr end \<Rightarrow>
          if end < mBufDataLen r \<or> mBufDataLen r < FQ_BUF_SIZE then
            (case mk_string (mBuf r) start (end - start) of
               Inl e \<Rightarrow> Inl e
             | Inr line \<Rightarrow>
                 if end + 1 < mBufDataLen r - 1 then
                   (case rdi (mBuf r) (end + 1 - 1) of
                      Inl e \<Rightarrow> Inl e
                    | Inr a \<Rightarrow>
                        if a = CR then
                          (case rdi (mBuf r) (end + 1) of
                             Inl e \<Rightarrow> Inl e
                           | Inr b \<Rightarrow>
                               Inr (line, r\<lparr>mBufUsedLen := (if b = LF then end + 2 else end + 1)\<rparr>))
                        else Inr (line, r\<lparr>mBufUsedLen := end + 1\<rparr>))
                 else Inr (line, r\<lparr>mBufUsedLen := end + 1\<rparr>))
          else
            (case mk_string (mBuf r) start (mBufDataLen r - start) of
               Inl e \<Rightarrow> Inl e
             | Inr str \<Rightarrow> getLine_refill str r))"

text \<open>
  The constructor, for a file that is not compressed: \<^verbatim>\<open>init()\<close> ends with the first
  \<^verbatim>\<open>readToBuf()\<close>.
\<close>

definition open_reader :: "char list \<Rightarrow> bool \<Rightarrow> bool \<Rightarrow> fault + FastqReader" where
  "open_reader bytes hasQuality phred64 =
     readToBuf \<lparr>mFile = bytes, mZipped = False, mZipFile_null = True, mPhred64 = phred64,
       mHasQuality = hasQuality, mBuf = [], mBufDataLen = 0, mBufUsedLen = 0,
       mHasNoLineBreakAtEnd = False\<rparr>"


lemma scan_eol_ge: "scan_eol buf n e = Inr e' \<Longrightarrow> e \<le> e' \<and> (n \<le> e \<longrightarrow> e' = e)"
proof (induction buf n e rule: scan_eol.induct)
  case (1 buf n e)
  then show ?case
    by (subst (asm) (2) scan_eol.simps) (fastforce split: if_splits sum.splits)
qed

lemma readToBuf_consumes:
  assumes "readToBuf r = Inr r1"
  shows "length (mFile r1) < length (mFile r)"
proof -
  let ?got = "take (nat FQ_BUF_SIZE) (mFile r)"
  from assms have f: "mFile r1 = drop (nat FQ_BUF_SIZE) (mFile r)"
    by (auto simp: readToBuf_def Let_def split: if_splits sum.splits)
  have "?got \<noteq> []"
  proof
    assume "?got = []"
    with assms show False
      by (simp add: readToBuf_def Let_def rdi_def FQ_BUF_SIZE_def)
  qed
  then have "mFile r \<noteq> []" by auto
  with f show ?thesis by (simp add: FQ_BUF_SIZE_def)
qed

lemma getLine_refill_consumes:
  "getLine_refill str r = Inr (l, r') \<Longrightarrow> length (mFile r') < length (mFile r)"
proof (induction str r rule: getLine_refill.induct)
  case (1 str r)
  from "1.prems" obtain r1 where r1: "readToBuf r = Inr r1"
    by (subst (asm) getLine_refill.simps) (auto split: sum.splits)
  from "1.prems" obtain e where e: "scan_eol (mBuf r1) (mBufDataLen r1) 0 = Inr e"
    by (subst (asm) getLine_refill.simps) (auto simp: r1 split: sum.splits)
  note c = readToBuf_consumes [OF r1]
  show ?case
  proof (cases "e < mBufDataLen r1 \<or> mBufDataLen r1 < FQ_BUF_SIZE")
    case True
    with "1.prems" have "mFile r' = mFile r1"
      by (subst (asm) getLine_refill.simps) (auto simp: r1 e split: sum.splits if_splits)
    with c show ?thesis by simp
  next
    case False
    with "1.prems" obtain s where s: "mk_string (mBuf r1) 0 (mBufDataLen r1) = Inr s"
      and "getLine_refill (str @ s) r1 = Inr (l, r')"
      by (subst (asm) getLine_refill.simps) (auto simp: r1 e split: sum.splits)
    with "1.IH" [OF r1 e False s] c show ?thesis by simp
  qed
qed

lemma getLine_effect:
  assumes "getLine r = Inr (line, r')"
  shows "length (mFile r') < length (mFile r)
     \<or> (mFile r' = mFile r \<and> mBufDataLen r' = mBufDataLen r \<and> mBufUsedLen r < mBufUsedLen r'
         \<and> (mBufDataLen r \<le> mBufUsedLen r \<longrightarrow> line = [] \<and> mBufDataLen r < FQ_BUF_SIZE))"
proof -
  from assms obtain e where e: "scan_eol (mBuf r) (mBufDataLen r) (mBufUsedLen r) = Inr e"
    by (auto simp: getLine_def Let_def split: sum.splits)
  note g = scan_eol_ge [OF e]
  show ?thesis
  proof (cases "e < mBufDataLen r \<or> mBufDataLen r < FQ_BUF_SIZE")
    case False
    with assms e obtain str where "getLine_refill str r = Inr (line, r')"
      by (auto simp: getLine_def Let_def split: sum.splits)
    from getLine_refill_consumes [OF this] show ?thesis by simp
  next
    case True
    with assms e obtain u where r': "r' = r\<lparr>mBufUsedLen := u\<rparr>" and u: "e + 1 \<le> u"
      and l: "mk_string (mBuf r) (mBufUsedLen r) (e - mBufUsedLen r) = Inr line"
      by (auto simp: getLine_def Let_def split: sum.splits if_splits)
    have "mBufDataLen r \<le> mBufUsedLen r \<longrightarrow> line = [] \<and> mBufDataLen r < FQ_BUF_SIZE"
      using g True l by (auto simp: mk_string_def)
    with r' u g show ?thesis by simp
  qed
qed

text \<open>
  \<^verbatim>\<open>read()\<close>. The test \<^verbatim>\<open>mBufUsedLen >= mBufDataLen && eof()\<close>, and the loop
  that looks for a name line:
  \<^verbatim>\<open>while ((name.empty() && !(mBufUsedLen >= mBufDataLen && eof())) ||
  (!name.empty() && name[0] != '@')) name = getLine();\<close>
\<close>

definition at_end :: "FastqReader \<Rightarrow> bool" where
  "at_end r = (mBufUsedLen r \<ge> mBufDataLen r \<and> FastqReader_eof r)"

function read_name :: "string \<Rightarrow> FastqReader \<Rightarrow> fault + (string \<times> FastqReader)" where
  "read_name name r =
     (if (name = [] \<and> \<not> at_end r) \<or> (name \<noteq> [] \<and> hd name \<noteq> AT) then
        (case getLine r of
           Inl e \<Rightarrow> Inl e
         | Inr (name', r') \<Rightarrow> read_name name' r')
      else Inr (name, r))"
  by pat_completeness auto
termination
proof (relation "measures [\<lambda>(name, r). length (mFile r),
         \<lambda>(name, r). nat (mBufDataLen r - mBufUsedLen r),
         \<lambda>(name, r). if name = [] then 0 else 1]", goal_cases)
  case 1
  show ?case by simp
next
  case (2 name r x2 name' r')
  then have "getLine r = Inr (name', r')" by simp
  from getLine_effect [OF this] 2(1) show ?case
    by (auto simp: at_end_def FastqReader_eof_def)
qed

declare read_name.simps [simp del]


text \<open>
  A \<^verbatim>\<open>Read\<close> is the five arguments of its constructor; the class is not in the source
  file. \<^verbatim>\<open>read()\<close> gives the record or \<open>None\<close> for \<^verbatim>\<open>NULL\<close>, the lines written
  to \<^verbatim>\<open>cerr\<close>, and the reader afterwards.
\<close>

record Read =
  mName :: string
  mSeq :: string
  mStrand :: string
  mQuality :: string
  mReadPhred64 :: bool

definition read :: "FastqReader \<Rightarrow> fault + (Read option \<times> string list \<times> FastqReader)" where
  "read r =
     (if mZipped r \<and> mZipFile_null r then Inr (None, [], r)
      else if at_end r then Inr (None, [], r)
      else
     (case getLine r of
        Inl e \<Rightarrow> Inl e
      | Inr (name0, r0) \<Rightarrow>
     (case read_name name0 r0 of
        Inl e \<Rightarrow> Inl e
      | Inr (name, r1) \<Rightarrow>
          if name = [] then Inr (None, [], r1)
          else
     (case getLine r1 of
        Inl e \<Rightarrow> Inl e
      | Inr (sequence, r2) \<Rightarrow>
     (case getLine r2 of
        Inl e \<Rightarrow> Inl e
      | Inr (strand, r3) \<Rightarrow>
          if \<not> mHasQuality r3 then
            Inr (Some \<lparr>mName = name, mSeq = sequence, mStrand = strand,
                   mQuality = replicate (length sequence) (CHR ''K''),
                   mReadPhred64 = mPhred64 r3\<rparr>, [], r3)
          else
     (case getLine r3 of
        Inl e \<Rightarrow> Inl e
      | Inr (quality, r4) \<Rightarrow>
          if length quality \<noteq> length sequence then
            Inr (None, [''ERROR: sequence and quality have different length:'',
                        name, sequence, strand, quality], r4)
          else
            Inr (Some \<lparr>mName = name, mSeq = sequence, mStrand = strand,
                   mQuality = quality, mReadPhred64 = mPhred64 r4\<rparr>, [], r4)))))))"

text \<open>
  \<^verbatim>\<open>FastqReaderPair::read()\<close>. \<open>mRight\<close> is \<^verbatim>\<open>NULL\<close> in a reader constructed as
  interleaved, and then it is not used.
\<close>

datatype pair_fault = ReaderFault fault | NullReader

record FastqReaderPair =
  mLeft :: FastqReader
  mRight :: "FastqReader option"
  mInterleaved :: bool

definition ReadPair :: "Read option \<Rightarrow> Read option \<Rightarrow> (Read \<times> Read) option" where
  "ReadPair l r = (case (l, r) of (Some a, Some b) \<Rightarrow> Some (a, b) | _ \<Rightarrow> None)"

definition FastqReaderPair_read ::
  "FastqReaderPair \<Rightarrow> pair_fault + ((Read \<times> Read) option \<times> string list \<times> FastqReaderPair)" where
  "FastqReaderPair_read p =
     (case read (mLeft p) of
        Inl e \<Rightarrow> Inl (ReaderFault e)
      | Inr (l, dl, left') \<Rightarrow>
          if mInterleaved p then
            (case read left' of
               Inl e \<Rightarrow> Inl (ReaderFault e)
             | Inr (r, dr, left'') \<Rightarrow> Inr (ReadPair l r, dl @ dr, p\<lparr>mLeft := left''\<rparr>))
          else
            (case mRight p of
               None \<Rightarrow> Inl NullReader
             | Some right \<Rightarrow>
                 (case read right of
                    Inl e \<Rightarrow> Inl (ReaderFault e)
                  | Inr (r, dr, right') \<Rightarrow>
                      Inr (ReadPair l r, dl @ dr, p\<lparr>mLeft := left', mRight := Some right'\<rparr>))))"

text \<open>Successive calls of \<^verbatim>\<open>FastqReaderPair::read\<close>, and what each returned.\<close>

fun successive_reads ::
  "nat \<Rightarrow> FastqReaderPair \<Rightarrow> pair_fault + ((Read \<times> Read) option list \<times> FastqReaderPair)" where
  "successive_reads 0 p = Inr ([], p)"
| "successive_reads (Suc n) p =
     (case FastqReaderPair_read p of
        Inl e \<Rightarrow> Inl e
      | Inr (res, d, p') \<Rightarrow>
          (case successive_reads n p' of
             Inl e \<Rightarrow> Inl e
           | Inr (rs, q) \<Rightarrow> Inr (res # rs, q)))"


lemma readToBuf_frame:
  "readToBuf r = Inr r' \<Longrightarrow> mHasQuality r' = mHasQuality r \<and> mPhred64 r' = mPhred64 r"
  by (auto simp: readToBuf_def Let_def split: if_splits sum.splits)

lemma getLine_refill_frame:
  "getLine_refill str r = Inr (l, r') \<Longrightarrow>
     mHasQuality r' = mHasQuality r \<and> mPhred64 r' = mPhred64 r"
proof (induction str r rule: getLine_refill.induct)
  case (1 str r)
  from "1.prems" obtain r1 where r1: "readToBuf r = Inr r1"
    by (subst (asm) getLine_refill.simps) (auto split: sum.splits)
  from "1.prems" obtain e where e: "scan_eol (mBuf r1) (mBufDataLen r1) 0 = Inr e"
    by (subst (asm) getLine_refill.simps) (auto simp: r1 split: sum.splits)
  note c = readToBuf_frame [OF r1]
  show ?case
  proof (cases "e < mBufDataLen r1 \<or> mBufDataLen r1 < FQ_BUF_SIZE")
    case True
    with "1.prems" obtain u where "r' = r1\<lparr>mBufUsedLen := u\<rparr>"
      by (subst (asm) getLine_refill.simps) (auto simp: r1 e split: sum.splits if_splits)
    with c show ?thesis by simp
  next
    case False
    with "1.prems" obtain s where s: "mk_string (mBuf r1) 0 (mBufDataLen r1) = Inr s"
      and "getLine_refill (str @ s) r1 = Inr (l, r')"
      by (subst (asm) getLine_refill.simps) (auto simp: r1 e split: sum.splits)
    with "1.IH" [OF r1 e False s] c show ?thesis by simp
  qed
qed

lemma getLine_frame:
  assumes "getLine r = Inr (l, r')"
  shows "mHasQuality r' = mHasQuality r \<and> mPhred64 r' = mPhred64 r"
proof -
  from assms obtain e where e: "scan_eol (mBuf r) (mBufDataLen r) (mBufUsedLen r) = Inr e"
    by (auto simp: getLine_def Let_def split: sum.splits)
  show ?thesis
  proof (cases "e < mBufDataLen r \<or> mBufDataLen r < FQ_BUF_SIZE")
    case False
    with assms e obtain str where "getLine_refill str r = Inr (l, r')"
      by (auto simp: getLine_def Let_def split: sum.splits)
    from getLine_refill_frame [OF this] show ?thesis .
  next
    case True
    with assms e obtain u where "r' = r\<lparr>mBufUsedLen := u\<rparr>"
      by (auto simp: getLine_def Let_def split: sum.splits if_splits)
    then show ?thesis by simp
  qed
qed

lemma read_name_frame:
  "read_name name r = Inr (name', r') \<Longrightarrow>
     mHasQuality r' = mHasQuality r \<and> mPhred64 r' = mPhred64 r"
proof (induction name r rule: read_name.induct)
  case (1 name r)
  show ?case
  proof (cases "(name = [] \<and> \<not> at_end r) \<or> (name \<noteq> [] \<and> hd name \<noteq> AT)")
    case False
    with "1.prems" show ?thesis by (subst (asm) read_name.simps) auto
  next
    case True
    with "1.prems" obtain n1 r1 where g: "getLine r = Inr (n1, r1)"
      and "read_name n1 r1 = Inr (name', r')"
      by (subst (asm) read_name.simps) (auto split: sum.splits)
    with "1.IH" [OF True g refl] getLine_frame [OF g] show ?thesis by simp
  qed
qed

text \<open>
  Claim C9. When \<^verbatim>\<open>FastqReader::read\<close>, with \<open>mHasQuality\<close> set, has found a name line
  and read the sequence, strand and quality lines, and the quality line's length differs
  from the sequence line's, it writes the diagnostic and the four lines to the error
  stream and returns no record. It returns normally: the result is not a fault, and the
  reader is left after the quality line.
\<close>

theorem read_quality_length_mismatch:
  assumes "\<not> (mZipped r \<and> mZipFile_null r)" and "\<not> at_end r" and "mHasQuality r"
    and "getLine r = Inr (name0, r0)" and "read_name name0 r0 = Inr (name, r1)"
    and "name \<noteq> []"
    and "getLine r1 = Inr (sequence, r2)" and "getLine r2 = Inr (strand, r3)"
    and "getLine r3 = Inr (quality, r4)"
    and "length quality \<noteq> length sequence"
  shows "read r = Inr (None, [''ERROR: sequence and quality have different length:'',
                             name, sequence, strand, quality], r4)"
proof -
  have "mHasQuality r3"
    using getLine_frame [OF assms(4)] read_name_frame [OF assms(5)]
      getLine_frame [OF assms(7)] getLine_frame [OF assms(8)] assms(3) by simp
  then show ?thesis using assms by (simp add: read_def)
qed

lemmas eval_reader = open_reader_def readToBuf_def FQ_BUF_SIZE_def rdi_def rd_def read_def
  at_end_def FastqReader_eof_def getLine_def scan_eol.simps mk_string_def read_name.simps

text \<open>
  The pairs that \<open>n\<close> successive calls hand to the caller, in order; a call that faults
  hands out nothing and ends the sequence.
\<close>

fun emitted_pairs :: "nat \<Rightarrow> FastqReaderPair \<Rightarrow> (Read \<times> Read) list" where
  "emitted_pairs 0 p = []"
| "emitted_pairs (Suc n) p =
     (case FastqReaderPair_read p of
        Inl e \<Rightarrow> []
      | Inr (res, d, p') \<Rightarrow>
          (case res of None \<Rightarrow> [] | Some x \<Rightarrow> [x]) @ emitted_pairs n p')"

text \<open>A reader at its end gives no record and stays as it is.\<close>

lemma read_at_end: "at_end r \<Longrightarrow> read r = Inr (None, [], r)"
  by (simp add: read_def)

lemma successive_reads_at_end:
  assumes "successive_reads n p = Inr (rs, q)" and "\<not> mInterleaved p"
    and "at_end (mLeft p) \<or> (\<exists>R. mRight p = Some R \<and> at_end R)"
  shows "rs = replicate n None"
  using assms
proof (induction n arbitrary: p rs)
  case 0
  then show ?case by simp
next
  case (Suc n)
  from Suc.prems(1) obtain res d p1 rs1 where c: "FastqReaderPair_read p = Inr (res, d, p1)"
    and s: "successive_reads n p1 = Inr (rs1, q)" and rs: "rs = res # rs1"
    by (auto split: sum.splits)
  from c Suc.prems(2) obtain l dl left1 R0 r dr right1 where
    l: "read (mLeft p) = Inr (l, dl, left1)" and R0: "mRight p = Some R0"
    and r: "read R0 = Inr (r, dr, right1)" and res: "res = ReadPair l r"
    and p1: "p1 = p\<lparr>mLeft := left1, mRight := Some right1\<rparr>"
    by (auto simp: FastqReaderPair_read_def split: sum.splits option.splits)
  from Suc.prems(3) have "res = None \<and> (at_end (mLeft p1) \<or> (\<exists>R. mRight p1 = Some R \<and> at_end R))"
  proof
    assume a: "at_end (mLeft p)"
    with l read_at_end have "l = None" "left1 = mLeft p" by simp_all
    with a res p1 show ?thesis by (simp add: ReadPair_def)
  next
    assume "\<exists>R. mRight p = Some R \<and> at_end R"
    with R0 have a: "at_end R0" by simp
    with r read_at_end have "r = None" "right1 = R0" by simp_all
    with a res p1 show ?thesis by (simp add: ReadPair_def split: option.splits)
  qed
  with Suc.IH [OF s] Suc.prems(2) p1 rs show ?case by simp
qed

lemma read_at_end_step:
  assumes c: "FastqReaderPair_read p = Inr (res, d, p1)" and i: "\<not> mInterleaved p"
    and e: "at_end (mLeft p) \<or> (\<exists>R. mRight p = Some R \<and> at_end R)"
  shows "res = None \<and> \<not> mInterleaved p1
       \<and> (at_end (mLeft p1) \<or> (\<exists>R. mRight p1 = Some R \<and> at_end R))"
proof -
  from c i obtain l dl left1 R0 r dr right1 where
    l: "read (mLeft p) = Inr (l, dl, left1)" and R0: "mRight p = Some R0"
    and r: "read R0 = Inr (r, dr, right1)" and res: "res = ReadPair l r"
    and p1: "p1 = p\<lparr>mLeft := left1, mRight := Some right1\<rparr>"
    by (auto simp: FastqReaderPair_read_def split: sum.splits option.splits)
  from e show ?thesis
  proof
    assume a: "at_end (mLeft p)"
    with l read_at_end have "l = None" "left1 = mLeft p" by simp_all
    with a res p1 i show ?thesis by (simp add: ReadPair_def)
  next
    assume "\<exists>R. mRight p = Some R \<and> at_end R"
    with R0 have a: "at_end R0" by simp
    with r read_at_end have "r = None" "right1 = R0" by simp_all
    with a res p1 i show ?thesis by (simp add: ReadPair_def split: option.splits)
  qed
qed

lemma emitted_pairs_at_end:
  assumes "\<not> mInterleaved p"
    and "at_end (mLeft p) \<or> (\<exists>R. mRight p = Some R \<and> at_end R)"
  shows "emitted_pairs n p = []"
  using assms
proof (induction n arbitrary: p)
  case 0
  then show ?case by simp
next
  case (Suc n)
  show ?case
  proof (cases "FastqReaderPair_read p")
    case (Inl e)
    then show ?thesis by simp
  next
    case (Inr x)
    then obtain res d p1 where c: "FastqReaderPair_read p = Inr (res, d, p1)"
      by (cases x) auto
    from read_at_end_step [OF c Suc.prems] Suc.IH [of p1] c show ?thesis by simp
  qed
qed

text \<open>
  Claim C10. \<^verbatim>\<open>FastqReaderPair::read\<close> on a pair that is not interleaved reads
  once from each reader. When both reads give a record it returns the pair of these two
  records; when one of them gives none it returns no pair, whatever the other gave. In
  both cases the state it leaves holds the two readers as the reads left them and nothing
  else: a surplus record is kept nowhere, and its reader has moved past it. When one of the
  readers is at its end after the call, as the reader of the shorter file is, no later call
  returns a pair: any number of later calls hand out no pair at all, and the results of
  those that return are all \<^verbatim>\<open>NULL\<close>, so the surplus record is never emitted.
\<close>

theorem FastqReaderPair_read_both:
  assumes "\<not> mInterleaved p" and "mRight p = Some R"
    and "read (mLeft p) = Inr (l, dl, left')" and "read R = Inr (r, dr, right')"
  shows "(\<forall>a b. l = Some a \<and> r = Some b \<longrightarrow>
            FastqReaderPair_read p
              = Inr (Some (a, b), dl @ dr, p\<lparr>mLeft := left', mRight := Some right'\<rparr>))
       \<and> (l = None \<or> r = None \<longrightarrow>
            FastqReaderPair_read p
              = Inr (None, dl @ dr, p\<lparr>mLeft := left', mRight := Some right'\<rparr>))
       \<and> (at_end left' \<or> at_end right' \<longrightarrow>
            (\<forall>n. emitted_pairs n (p\<lparr>mLeft := left', mRight := Some right'\<rparr>) = [])
          \<and> (\<forall>n rs q. successive_reads n (p\<lparr>mLeft := left', mRight := Some right'\<rparr>)
                         = Inr (rs, q)
               \<longrightarrow> rs = replicate n None))"
proof (intro conjI allI impI)
  fix a b assume "l = Some a \<and> r = Some b"
  with assms show "FastqReaderPair_read p
      = Inr (Some (a, b), dl @ dr, p\<lparr>mLeft := left', mRight := Some right'\<rparr>)"
    by (simp add: FastqReaderPair_read_def ReadPair_def)
next
  assume "l = None \<or> r = None"
  with assms show "FastqReaderPair_read p
      = Inr (None, dl @ dr, p\<lparr>mLeft := left', mRight := Some right'\<rparr>)"
    by (auto simp: FastqReaderPair_read_def ReadPair_def split: option.splits)
next
  fix n
  assume e: "at_end left' \<or> at_end right'"
  from emitted_pairs_at_end [of "p\<lparr>mLeft := left', mRight := Some right'\<rparr>" n] assms(1) e
  show "emitted_pairs n (p\<lparr>mLeft := left', mRight := Some right'\<rparr>) = []" by auto
next
  fix n rs q
  assume e: "at_end left' \<or> at_end right'"
    and s: "successive_reads n (p\<lparr>mLeft := left', mRight := Some right'\<rparr>) = Inr (rs, q)"
  from successive_reads_at_end [OF s] assms(1) e show "rs = replicate n None" by auto
qed

subsection \<open>Concrete readers\<close>

text \<open>
  The state of a reader after construction on a short file that ends with a newline, and
  the lines a caller gets that calls \<^verbatim>\<open>getLine\<close> until the reader is at its end
  (the test \<^verbatim>\<open>mBufUsedLen >= mBufDataLen && eof()\<close> of \<^verbatim>\<open>read\<close>), at most \<open>n\<close> times.
\<close>

definition reader_on :: "string \<Rightarrow> FastqReader" where
  "reader_on bytes =
     \<lparr>mFile = [], mZipped = False, mZipFile_null = True, mPhred64 = False,
      mHasQuality = True, mBuf = bytes, mBufDataLen = int (length bytes), mBufUsedLen = 0,
      mHasNoLineBreakAtEnd = False\<rparr>"

fun getLines :: "nat \<Rightarrow> FastqReader \<Rightarrow> fault + string list" where
  "getLines 0 r = Inr []"
| "getLines (Suc n) r =
     (if at_end r then Inr []
      else case getLine r of
             Inl e \<Rightarrow> Inl e
           | Inr (l, r') \<Rightarrow>
               (case getLines n r' of Inl e \<Rightarrow> Inl e | Inr ls \<Rightarrow> Inr (l # ls)))"

definition fq_mismatch :: string where
  "fq_mismatch = ''@r'' @ [LF] @ ''ACGT'' @ [LF] @ ''+'' @ [LF] @ ''II'' @ [LF]"

definition fq_one :: string where
  "fq_one = ''@r'' @ [LF] @ ''AC'' @ [LF] @ ''+'' @ [LF] @ ''II'' @ [LF]"

text \<open>
  A file of two records and a pair of readers on it and on the file of the first record
  alone; the two records as \<^verbatim>\<open>read()\<close> returns them.
\<close>

definition fq_two :: string where
  "fq_two = ''@r'' @ [LF] @ ''AC'' @ [LF] @ ''+'' @ [LF] @ ''II'' @ [LF]
            @ ''@s'' @ [LF] @ ''GT'' @ [LF] @ ''+'' @ [LF] @ ''JJ'' @ [LF]"

definition pair_longer_left :: FastqReaderPair where
  "pair_longer_left = \<lparr>mLeft = reader_on fq_two, mRight = Some (reader_on fq_one), mInterleaved = False\<rparr>"

definition read_r :: Read where
  "read_r = \<lparr>mName = ''@r'', mSeq = ''AC'', mStrand = ''+'', mQuality = ''II'', mReadPhred64 = False\<rparr>"

definition read_s :: Read where
  "read_s = \<lparr>mName = ''@s'', mSeq = ''GT'', mStrand = ''+'', mQuality = ''JJ'', mReadPhred64 = False\<rparr>"

text \<open>Witness of claim C9: a record of four bases and two quality values.\<close>

theorem read_quality_length_mismatch_witness:
  "open_reader fq_mismatch True False = Inr (reader_on fq_mismatch)
   \<and> mHasQuality (reader_on fq_mismatch) \<and> \<not> at_end (reader_on fq_mismatch)
   \<and> read (reader_on fq_mismatch) =
       Inr (None, [''ERROR: sequence and quality have different length:'',
                   ''@r'', ''ACGT'', ''+'', ''II''], (reader_on fq_mismatch)\<lparr>mBufUsedLen := 13\<rparr>)"
proof -
  let ?r = "reader_on fq_mismatch"
  have o: "open_reader fq_mismatch True False = Inr ?r"
    by (simp add: eval_reader reader_on_def fq_mismatch_def)
  have z: "\<not> (mZipped ?r \<and> mZipFile_null ?r)" and e: "\<not> at_end ?r" and q: "mHasQuality ?r"
    by (simp_all add: eval_reader reader_on_def fq_mismatch_def)
  have g0: "getLine ?r = Inr (''@r'', ?r\<lparr>mBufUsedLen := 3\<rparr>)"
    by (simp add: eval_reader reader_on_def fq_mismatch_def)
  have n: "read_name ''@r'' (?r\<lparr>mBufUsedLen := 3\<rparr>) = Inr (''@r'', ?r\<lparr>mBufUsedLen := 3\<rparr>)"
    by (simp add: eval_reader)
  have g1: "getLine (?r\<lparr>mBufUsedLen := 3\<rparr>) = Inr (''ACGT'', ?r\<lparr>mBufUsedLen := 8\<rparr>)"
    by (simp add: eval_reader reader_on_def fq_mismatch_def)
  have g2: "getLine (?r\<lparr>mBufUsedLen := 8\<rparr>) = Inr (''+'', ?r\<lparr>mBufUsedLen := 10\<rparr>)"
    by (simp add: eval_reader reader_on_def fq_mismatch_def)
  have g3: "getLine (?r\<lparr>mBufUsedLen := 10\<rparr>) = Inr (''II'', ?r\<lparr>mBufUsedLen := 13\<rparr>)"
    by (simp add: eval_reader reader_on_def fq_mismatch_def)
  from read_quality_length_mismatch [OF z e q g0 n _ g1 g2 g3] o e q
  show ?thesis by simp
qed

lemma read_fq_two_1: "read (reader_on fq_two) = Inr (Some read_r, [], (reader_on fq_two)\<lparr>mBufUsedLen := 11\<rparr>)"
  by (simp add: eval_reader reader_on_def fq_two_def read_r_def)

lemma read_fq_two_2: "read ((reader_on fq_two)\<lparr>mBufUsedLen := 11\<rparr>)
    = Inr (Some read_s, [], (reader_on fq_two)\<lparr>mBufUsedLen := 22\<rparr>)"
  by (simp add: eval_reader reader_on_def fq_two_def read_s_def)

lemma read_fq_one_1: "read (reader_on fq_one) = Inr (Some read_r, [], (reader_on fq_one)\<lparr>mBufUsedLen := 11\<rparr>)"
  by (simp add: eval_reader reader_on_def fq_one_def read_r_def)

lemma fq_one_at_end: "at_end ((reader_on fq_one)\<lparr>mBufUsedLen := 11\<rparr>)"
  by (simp add: eval_reader reader_on_def fq_one_def)

lemma fq_two_at_end: "at_end ((reader_on fq_two)\<lparr>mBufUsedLen := 22\<rparr>)"
  by (simp add: eval_reader reader_on_def fq_two_def)

text \<open>
  Witness of claim C10: the left file holds two records and the right file the first of
  them. The first call returns a pair; the second reads the surplus record on the left
  and nothing on the right, whose reader is at its end, and returns no pair; three more
  calls return no pair.
\<close>

definition after_first :: FastqReaderPair where
  "after_first = pair_longer_left\<lparr>mLeft := (reader_on fq_two)\<lparr>mBufUsedLen := 11\<rparr>,
                                   mRight := Some ((reader_on fq_one)\<lparr>mBufUsedLen := 11\<rparr>)\<rparr>"

definition after_second :: FastqReaderPair where
  "after_second = after_first\<lparr>mLeft := (reader_on fq_two)\<lparr>mBufUsedLen := 22\<rparr>,
                               mRight := Some ((reader_on fq_one)\<lparr>mBufUsedLen := 11\<rparr>)\<rparr>"

theorem FastqReaderPair_read_both_witness:
  "\<not> mInterleaved pair_longer_left \<and> mRight pair_longer_left = Some (reader_on fq_one)
   \<and> read (mLeft pair_longer_left)
       = Inr (Some read_r, [], (reader_on fq_two)\<lparr>mBufUsedLen := 11\<rparr>)
   \<and> read (reader_on fq_one) = Inr (Some read_r, [], (reader_on fq_one)\<lparr>mBufUsedLen := 11\<rparr>)
   \<and> FastqReaderPair_read pair_longer_left = Inr (Some (read_r, read_r), [], after_first)
   \<and> read (mLeft after_first) = Inr (Some read_s, [], (reader_on fq_two)\<lparr>mBufUsedLen := 22\<rparr>)
   \<and> read ((reader_on fq_one)\<lparr>mBufUsedLen := 11\<rparr>)
       = Inr (None, [], (reader_on fq_one)\<lparr>mBufUsedLen := 11\<rparr>)
   \<and> at_end ((reader_on fq_one)\<lparr>mBufUsedLen := 11\<rparr>)
   \<and> FastqReaderPair_read after_first = Inr (None, [], after_second)
   \<and> successive_reads 3 after_second = Inr ([None, None, None], after_second)
   \<and> [None, None, None] = replicate 3 (None :: (Read \<times> Read) option)
   \<and> emitted_pairs 3 after_second = []
   \<and> emitted_pairs 2 pair_longer_left = [(read_r, read_r)]"
proof -
  let ?L1 = "(reader_on fq_two)\<lparr>mBufUsedLen := 11\<rparr>"
  let ?L2 = "(reader_on fq_two)\<lparr>mBufUsedLen := 22\<rparr>"
  let ?R1 = "(reader_on fq_one)\<lparr>mBufUsedLen := 11\<rparr>"
  have i0: "\<not> mInterleaved pair_longer_left" and m0: "mRight pair_longer_left = Some (reader_on fq_one)"
    and l0: "read (mLeft pair_longer_left) = Inr (Some read_r, [], ?L1)"
    by (simp_all add: pair_longer_left_def read_fq_two_1)
  have i1: "\<not> mInterleaved after_first" and m1: "mRight after_first = Some ?R1"
    and l1: "read (mLeft after_first) = Inr (Some read_s, [], ?L2)"
    by (simp_all add: after_first_def pair_longer_left_def read_fq_two_2)
  have r1: "read ?R1 = Inr (None, [], ?R1)" by (rule read_at_end [OF fq_one_at_end])
  have l2: "read ?L2 = Inr (None, [], ?L2)" by (rule read_at_end [OF fq_two_at_end])
  note t0 = FastqReaderPair_read_both [OF i0 m0 l0 read_fq_one_1]
  note t1 = FastqReaderPair_read_both [OF i1 m1 l1 r1]
  from t0 have c0: "FastqReaderPair_read pair_longer_left = Inr (Some (read_r, read_r), [], after_first)"
    by (simp add: after_first_def)
  from t1 have c1: "FastqReaderPair_read after_first = Inr (None, [], after_second)"
    by (simp add: after_second_def)
  have c2: "FastqReaderPair_read after_second = Inr (None, [], after_second)"
    by (simp add: FastqReaderPair_read_def after_second_def after_first_def pair_longer_left_def
        l2 r1 ReadPair_def)
  have s: "successive_reads 3 after_second = Inr ([None, None, None], after_second)"
    by (simp add: numeral_3_eq_3 c2)
  from t1 fq_one_at_end s have "[None, None, None] = replicate 3 (None :: (Read \<times> Read) option)"
    unfolding after_second_def [symmetric] by blast
  moreover from t1 fq_one_at_end have em: "emitted_pairs 3 after_second = []"
    unfolding after_second_def [symmetric] by blast
  moreover have "emitted_pairs 2 pair_longer_left = [(read_r, read_r)]"
    by (simp add: numeral_2_eq_2 c0 c1)
  ultimately show ?thesis
    using i0 m0 l0 read_fq_one_1 c0 l1 r1 fq_one_at_end c1 s by blast
qed

lemma scan_eol_skip:
  assumes "\<And>i. e \<le> i \<Longrightarrow> i < m \<Longrightarrow> \<exists>c. rdi buf i = Inr c \<and> c \<noteq> CR \<and> c \<noteq> LF"
    and "e \<le> m" and "m \<le> n"
    and "m < n \<Longrightarrow> \<exists>c. rdi buf m = Inr c \<and> (c = CR \<or> c = LF)"
  shows "scan_eol buf n e = Inr m"
  using assms(1,2)
proof (induction "nat (m - e)" arbitrary: e)
  case 0
  then have "e = m" by simp
  then show ?case using assms(3,4) by (subst scan_eol.simps) auto
next
  case (Suc k)
  then have lt: "e < m" by simp
  with Suc.prems(1) [of e] obtain c where c: "rdi buf e = Inr c" "c \<noteq> CR" "c \<noteq> LF" by auto
  have "scan_eol buf n (e + 1) = Inr m"
    using Suc.hyps(2) lt Suc.prems(1) by (intro Suc.hyps(1)) auto
  with c lt assms(3) show ?case by (subst scan_eol.simps) simp
qed

text \<open>
  A file whose first line ends exactly with the first refill: 1048574 bytes of text, a
  \<open>\r\n\<close> that fills the buffer, and a second line. After the constructor the buffer
  holds the first line and its terminator.
\<close>

definition long_line :: string where
  "long_line = replicate 1048574 (CHR ''A'')"

definition boundary_file :: string where
  "boundary_file = long_line @ [CR, LF] @ ''B'' @ [LF]"

definition boundary_reader :: FastqReader where
  "boundary_reader =
     \<lparr>mFile = ''B'' @ [LF], mZipped = False, mZipFile_null = True, mPhred64 = False,
      mHasQuality = True, mBuf = long_line @ [CR, LF], mBufDataLen = 1048576, mBufUsedLen = 0,
      mHasNoLineBreakAtEnd = False\<rparr>"

lemma long_line_length: "length long_line = 1048574"
  by (simp add: long_line_def)

lemma boundary_open: "open_reader boundary_file True False = Inr boundary_reader"
  by (simp add: open_reader_def readToBuf_def Let_def FQ_BUF_SIZE_def boundary_file_def
      boundary_reader_def long_line_length)

lemma boundary_rdi:
  "0 \<le> i \<Longrightarrow> i < 1048574 \<Longrightarrow> rdi (long_line @ [CR, LF]) i = Inr (CHR ''A'')"
  "rdi (long_line @ [CR, LF]) 1048574 = Inr CR"
  "rdi (long_line @ [CR, LF]) 1048575 = Inr LF"
  by (simp_all add: rdi_def rd_def long_line_length nth_append) (simp add: long_line_def)

lemma boundary_scan1: "scan_eol (long_line @ [CR, LF]) 1048576 0 = Inr 1048574"
  by (rule scan_eol_skip) (auto simp: boundary_rdi)

lemma boundary_line1:
  "getLine boundary_reader = Inr (long_line, boundary_reader\<lparr>mBufUsedLen := 1048575\<rparr>)"
  by (simp add: getLine_def boundary_reader_def boundary_scan1 FQ_BUF_SIZE_def mk_string_def
      long_line_length)

lemma boundary_scan2: "scan_eol (long_line @ [CR, LF]) 1048576 1048575 = Inr 1048575"
  by (rule scan_eol_skip) (auto simp: boundary_rdi)

lemma boundary_line2:
  "getLine (boundary_reader\<lparr>mBufUsedLen := 1048575\<rparr>)
     = Inr ([], boundary_reader\<lparr>mBufUsedLen := 1048576\<rparr>)"
  by (simp add: getLine_def boundary_reader_def boundary_scan2 FQ_BUF_SIZE_def mk_string_def)

lemma boundary_scan3: "scan_eol (long_line @ [CR, LF]) 1048576 1048576 = Inr 1048576"
  by (subst scan_eol.simps) simp

lemma boundary_line3:
  "getLine (boundary_reader\<lparr>mBufUsedLen := 1048576\<rparr>)
     = Inr (''B'', boundary_reader\<lparr>mFile := [], mBuf := ''B'' @ [LF], mBufDataLen := 2,
                                     mBufUsedLen := 2\<rparr>)"
  by (simp add: getLine_def boundary_reader_def boundary_scan3 FQ_BUF_SIZE_def mk_string_def
      getLine_refill.simps readToBuf_def Let_def rdi_def rd_def scan_eol.simps)

lemma boundary_lines:
  "getLines 4 boundary_reader = Inr [long_line, [], ''B'']"
proof -
  have n: "(4::nat) = Suc (Suc (Suc (Suc 0)))" by simp
  have a: "\<not> at_end boundary_reader" "\<not> at_end (boundary_reader\<lparr>mBufUsedLen := 1048575\<rparr>)"
    "\<not> at_end (boundary_reader\<lparr>mBufUsedLen := 1048576\<rparr>)"
    "at_end (boundary_reader\<lparr>mFile := [], mBuf := ''B'' @ [LF], mBufDataLen := 2,
                                     mBufUsedLen := 2\<rparr>)"
    by (simp_all add: at_end_def FastqReader_eof_def FQ_BUF_SIZE_def boundary_reader_def)
  show ?thesis
    unfolding n using a by (simp add: boundary_line1 boundary_line2 boundary_line3)
qed

text \<open>
  Claim C8 (refuted on the code). The test \<^verbatim>\<open>end < mBufDataLen - 1\<close> that guards the
  \<open>\r\n\<close> step lets a \<open>\n\<close> that is the last byte of the buffer's data stand, and the
  next call returns an empty line. On the file above, whose two lines are separated by a
  \<open>\r\n\<close> that ends the first refill, the calls return the first line, an empty line
  and the second line. On the six bytes \<open>A\r\nB\r\n\<close> the reader is not at its end after
  two lines, and the third call returns an empty line; on \<open>A\nB\n\<close> it is at its end
  after two.
\<close>

theorem getLine_crlf_empty_line:
  "open_reader boundary_file True False = Inr boundary_reader
   \<and> getLines 4 boundary_reader = Inr [long_line, [], ''B'']
   \<and> open_reader (''A'' @ [CR, LF] @ ''B'' @ [CR, LF]) True False
     = Inr (reader_on (''A'' @ [CR, LF] @ ''B'' @ [CR, LF]))
   \<and> getLines 4 (reader_on (''A'' @ [CR, LF] @ ''B'' @ [CR, LF])) = Inr [''A'', ''B'', []]
   \<and> getLines 4 (reader_on (''A'' @ [LF] @ ''B'' @ [LF])) = Inr [''A'', ''B'']"
proof (intro conjI)
  show "open_reader boundary_file True False = Inr boundary_reader"
    by (rule boundary_open)
  show "getLines 4 boundary_reader = Inr [long_line, [], ''B'']"
    by (rule boundary_lines)
  show "open_reader (''A'' @ [CR, LF] @ ''B'' @ [CR, LF]) True False
     = Inr (reader_on (''A'' @ [CR, LF] @ ''B'' @ [CR, LF]))"
    by (simp add: eval_reader reader_on_def)
  show "getLines 4 (reader_on (''A'' @ [CR, LF] @ ''B'' @ [CR, LF])) = Inr [''A'', ''B'', []]"
    by (simp add: eval_reader reader_on_def eval_nat_numeral)
  show "getLines 4 (reader_on (''A'' @ [LF] @ ''B'' @ [LF])) = Inr [''A'', ''B'']"
    by (simp add: eval_reader reader_on_def eval_nat_numeral)
qed

section \<open>The paired chunk reader\<close>

text \<open>
  A chunk is a buffer and the field \<open>size\<close>; the buffer's capacity
  (\<^verbatim>\<open>data.Size()\<close>) is the length of the list. The declared type of \<open>size\<close> and of
  the other counters is in a header that is not part of the source file; they are kept
  in \<open>int\<close>, so that a negative outcome stays visible.
\<close>

record FastqDataChunk =
  chunk_data :: "char list"
  chunk_size :: int

record ChunkPair =
  leftpart :: FastqDataChunk
  rightpart :: FastqDataChunk

text \<open>
  Modelled from the spec: the pool, whose code is not in the source file, is a
  "bounded free-list"; "\<^verbatim>\<open>acquire()\<close> returns a chunk (blocking if none available);
  \<^verbatim>\<open>release(chunk)\<close> resets \<^verbatim>\<open>size = 0\<close> and returns it to the free list". The
  model's pool never runs out, and a call of \<^verbatim>\<open>Acquire\<close> always returns.
  Of a pool the model keeps the number of \<^verbatim>\<open>Acquire\<close> and of \<^verbatim>\<open>Release\<close> calls.
  The contents of the buffer that \<^verbatim>\<open>Acquire\<close> hands out are whatever an earlier use
  left there: they are an argument of the call (\<open>fresh_left\<close>, \<open>fresh_right\<close>).
\<close>

record FastqDataPool =
  acquired :: nat
  released :: nat

definition Acquire :: "FastqDataPool \<Rightarrow> FastqDataPool" where
  "Acquire p = p\<lparr>acquired := Suc (acquired p)\<rparr>"

definition Release :: "FastqDataPool \<Rightarrow> FastqDataPool" where
  "Release p = p\<lparr>released := Suc (released p)\<rparr>"

text \<open>
  The members of \<^verbatim>\<open>FastqChunkReaderPair\<close> that the chunk reader uses. Of the byte
  sources \<open>mLeft\<close> and \<open>mRight\<close> the model keeps the bytes not yet delivered.
\<close>

record FastqChunkReaderPair =
  swapBuffer_left :: "char list"
  swapBuffer_right :: "char list"
  bufferSize_left :: int
  bufferSize_right :: int
  eof :: bool
  usesCrlf :: bool
  mLeft_bytes :: "char list"
  mRight_bytes :: "char list"
  fastqPool_left :: FastqDataPool
  fastqPool_right :: FastqDataPool

text \<open>
  Modelled from the spec: the byte source's \<^verbatim>\<open>Read(dst, n)\<close>, whose code is not in
  the source file, "fills up to \<open>n\<close> bytes into \<open>dst\<close>; returns 0 at EOF". It delivers
  \<open>n\<close> bytes while the file has that many, and the rest of the file otherwise. The
  result is the bytes delivered and the bytes that remain.
\<close>

definition source_Read :: "char list \<Rightarrow> int \<Rightarrow> char list \<times> char list" where
  "source_Read src n = (take (nat n) src, drop (nat n) src)"

text \<open>
  The two halves of \<^verbatim>\<open>std::copy(src + a, src + b, dst)\<close>: the bytes read, and the
  buffer after they are written at an offset. An empty range touches no memory.
\<close>

definition slice :: "char list \<Rightarrow> int \<Rightarrow> int \<Rightarrow> fault + char list" where
  "slice buf a b =
     (if a = b then Inr []
      else if 0 \<le> a \<and> a < b \<and> b \<le> int (length buf)
      then Inr (take (nat (b - a)) (drop (nat a) buf))
      else Inl (OutOfBounds (if a < 0 \<or> b < a then a else b)))"

definition write_at :: "char list \<Rightarrow> int \<Rightarrow> char list \<Rightarrow> fault + char list" where
  "write_at buf off bytes =
     (if bytes = [] then Inr buf
      else if 0 \<le> off \<and> off + int (length bytes) \<le> int (length buf)
      then Inr (take (nat off) buf @ bytes @ drop (nat off + length bytes) buf)
      else Inl (OutOfBounds (off + int (length bytes))))"

text \<open>
  \<^verbatim>\<open>count_line(contenx, read_bytes)\<close> and its loop,
  \<^verbatim>\<open>for (int i = 0; i < read_bytes; ++i)\<close>. The index is an \<^verbatim>\<open>int\<close> of 32 bits
  and the bound an \<^verbatim>\<open>int64\<close>: the comparison is made in 64 bits, and \<^verbatim>\<open>++i\<close> at
  2147483647 is a signed overflow, which is a fault of the model.
\<close>

function count_loop :: "char list \<Rightarrow> int \<Rightarrow> int \<Rightarrow> int \<Rightarrow> fault + int" where
  "count_loop contenx i read_bytes count_n =
     (if i < read_bytes then
        (case rdi contenx i of
           Inl e \<Rightarrow> Inl e
         | Inr c \<Rightarrow>
             if i = 2147483647 then Inl SignedOverflow
             else count_loop contenx (i + 1) read_bytes (if c = LF then count_n + 1 else count_n))
      else Inr count_n)"
  by pat_completeness auto
termination
  by (relation "measure (\<lambda>(contenx, i, read_bytes, count_n). nat (read_bytes - i))") auto

declare count_loop.simps [simp del]

definition count_line :: "char list \<Rightarrow> int \<Rightarrow> fault + int" where
  "count_line contenx read_bytes = count_loop contenx 0 read_bytes 0"

text \<open>
  The two walks of the re-synchronisation. On the left:
  \<^verbatim>\<open>while (chunkEnd >= 0) { if (data[chunkEnd] == '\n') { difference--;
  if (difference == -1) { chunkEnd++; break; } } chunkEnd--; }\<close>
  and on the right the same with \<^verbatim>\<open>difference++\<close> and \<^verbatim>\<open>difference == 1\<close>.
\<close>

function walk_left :: "char list \<Rightarrow> int \<Rightarrow> int \<Rightarrow> fault + int" where
  "walk_left buf chunkEnd difference =
     (if chunkEnd \<ge> 0 then
        (case rdi buf chunkEnd of
           Inl e \<Rightarrow> Inl e
         | Inr c \<Rightarrow>
             if c = LF then
               (if difference - 1 = - 1 then Inr (chunkEnd + 1)
                else walk_left buf (chunkEnd - 1) (difference - 1))
             else walk_left buf (chunkEnd - 1) difference)
      else Inr chunkEnd)"
  by pat_completeness auto
termination
  by (relation "measure (\<lambda>(buf, chunkEnd, difference). nat (chunkEnd + 1))") auto

declare walk_left.simps [simp del]

function walk_right :: "char list \<Rightarrow> int \<Rightarrow> int \<Rightarrow> fault + int" where
  "walk_right buf chunkEnd difference =
     (if chunkEnd \<ge> 0 then
        (case rdi buf chunkEnd of
           Inl e \<Rightarrow> Inl e
         | Inr c \<Rightarrow>
             if c = LF then
               (if difference + 1 = 1 then Inr (chunkEnd + 1)
                else walk_right buf (chunkEnd - 1) (difference + 1))
             else walk_right buf (chunkEnd - 1) difference)
      else Inr chunkEnd)"
  by pat_completeness auto
termination
  by (relation "measure (\<lambda>(buf, chunkEnd, difference). nat (chunkEnd + 1))") auto

declare walk_right.simps [simp del]

text \<open>
  The refill of one side: lines 517 to 564 of the source for the left side and lines 568
  to 612, the same text with the right side's names, for the right side. It begins with
  the copy of the carry-over into the chunk ("flush the data from previous incomplete
  chunk"), which gives the buffer, the chunk's size and the swap buffer's fill. The result
  holds the locals the rest of the call uses (\<open>data\<close>, \<open>size\<close>, \<open>chunkEnd\<close>,
  \<open>cbufSize\<close>, \<open>eof1\<close> or \<open>eof2\<close>), whether the call returns \<^verbatim>\<open>NULL\<close> at once
  (a read of nothing into an empty chunk), and the members the refill changed. The
  position passed to \<^verbatim>\<open>GetNextRecordPos\<close> is converted to \<^verbatim>\<open>uint64\<close>.
  \<open>tmpSwapBufferSize\<close> is a constant of a header that is not part of the source file.
\<close>

record refill_result =
  r_data :: "char list"
  r_size :: int
  r_chunkEnd :: int
  r_cbufSize :: int
  r_eof :: bool
  r_abort :: bool
  r_bufferSize :: int
  r_src :: "char list"
  r_crlf :: bool

definition flush_swap :: "char list \<Rightarrow> char list \<Rightarrow> int \<Rightarrow> fault + (char list \<times> int \<times> int)" where
  "flush_swap fresh swap bufferSize =
     (if bufferSize > 0 then
        (case slice swap 0 bufferSize of
           Inl e \<Rightarrow> Inl e
         | Inr bs \<Rightarrow>
             (case write_at fresh 0 bs of
                Inl e \<Rightarrow> Inl e
              | Inr d \<Rightarrow> Inr (d, bufferSize, 0)))
      else Inr (fresh, 0, bufferSize))"

definition refill ::
  "bool \<Rightarrow> int \<Rightarrow> char list \<Rightarrow> char list \<Rightarrow> int \<Rightarrow> char list \<Rightarrow> bool \<Rightarrow> fault + refill_result" where
  "refill chk tmpSwapBufferSize fresh swap bufferSize src crlf =
     (let cbufSize = int (length fresh); toRead = cbufSize - bufferSize in
      case flush_swap fresh swap bufferSize of
        Inl e \<Rightarrow> Inl e
      | Inr (data1, size1, bufferSize1) \<Rightarrow>
          (let got = fst (source_Read src toRead); src' = snd (source_Read src toRead);
               r = int (length got)
           in case write_at data1 size1 got of
                Inl e \<Rightarrow> Inl e
              | Inr data2 \<Rightarrow>
                  if r > 0 then
                    if r = toRead then
                      (case GetNextRecordPos chk data2
                              (nat ((cbufSize - tmpSwapBufferSize) mod 2 ^ 64))
                              (nat cbufSize) crlf of
                         Inl e \<Rightarrow> Inl e
                       | Inr (p, crlf') \<Rightarrow>
                           Inr \<lparr>r_data = data2, r_size = size1, r_chunkEnd = int p,
                                r_cbufSize = cbufSize, r_eof = False, r_abort = False,
                                r_bufferSize = bufferSize1, r_src = src', r_crlf = crlf'\<rparr>)
                    else
                      (let size2 = size1 + (r - 1) - (if crlf then 1 else 0)
                       in Inr \<lparr>r_data = data2, r_size = size2, r_chunkEnd = size2 + 1,
                               r_cbufSize = size2 + 1, r_eof = True, r_abort = False,
                               r_bufferSize = bufferSize1, r_src = src', r_crlf = crlf\<rparr>)
                  else
                    Inr \<lparr>r_data = data2, r_size = size1, r_chunkEnd = size1 + 1,
                         r_cbufSize = size1 + 1, r_eof = True, r_abort = (size1 = 0),
                         r_bufferSize = bufferSize1, r_src = src', r_crlf = crlf\<rparr>))"

text \<open>
  The re-synchronisation of the two cut points (lines 618 to 646), and what follows for
  each side (lines 648 to 659): the chunk's size, the copy of the tail into the swap
  buffer and the new fill. The second count of the lines and the message it may print on
  the standard output (lines 660 to 664) change nothing and are left out.
\<close>

definition resync_cuts ::
  "char list \<Rightarrow> int \<Rightarrow> char list \<Rightarrow> int \<Rightarrow> fault + (int \<times> int)" where
  "resync_cuts data chunkEnd data_right chunkEnd_right =
     (case count_line data chunkEnd of
        Inl e \<Rightarrow> Inl e
      | Inr left_line_count \<Rightarrow>
     (case count_line data_right chunkEnd_right of
        Inl e \<Rightarrow> Inl e
      | Inr right_line_count \<Rightarrow>
          (let difference = left_line_count - right_line_count in
           if difference > 0 then
             (case walk_left data chunkEnd difference of
                Inl e \<Rightarrow> Inl e
              | Inr c \<Rightarrow> Inr (c, chunkEnd_right))
           else if difference < 0 then
             (case walk_right data_right chunkEnd_right difference of
                Inl e \<Rightarrow> Inl e
              | Inr c \<Rightarrow> Inr (chunkEnd, c))
           else Inr (chunkEnd, chunkEnd_right))))"

definition cut_side ::
  "char list \<Rightarrow> int \<Rightarrow> int \<Rightarrow> bool \<Rightarrow> char list \<Rightarrow> fault + (int \<times> char list \<times> int)" where
  "cut_side data chunkEnd cbufSize crlf swap =
     (case slice data chunkEnd cbufSize of
        Inl e \<Rightarrow> Inl e
      | Inr tail \<Rightarrow>
          (case write_at swap 0 tail of
             Inl e \<Rightarrow> Inl e
           | Inr swap' \<Rightarrow>
               Inr (chunkEnd - 1 - (if crlf then 1 else 0), swap', cbufSize - chunkEnd)))"

text \<open>
  \<^verbatim>\<open>readNextChunkPair_interleaved()\<close>. The variant that reads through queues (lines
  672 to 839) is the same text with another \<^verbatim>\<open>Read\<close> call. The result is the pair,
  or \<open>None\<close> for \<^verbatim>\<open>NULL\<close>, and the reader afterwards.
\<close>

definition readNextChunkPair_interleaved ::
  "bool \<Rightarrow> int \<Rightarrow> char list \<Rightarrow> char list \<Rightarrow> FastqChunkReaderPair
     \<Rightarrow> fault + (ChunkPair option \<times> FastqChunkReaderPair)" where
  "readNextChunkPair_interleaved chk tmpSwapBufferSize fresh_left fresh_right st =
     (let st1 = st\<lparr>fastqPool_left := Acquire (fastqPool_left st),
                    fastqPool_right := Acquire (fastqPool_right st)\<rparr>
      in
      if eof st1 then
        Inr (None, st1\<lparr>fastqPool_left := Release (fastqPool_left st1),
                         fastqPool_right := Release (fastqPool_right st1)\<rparr>)
      else
     (case refill chk tmpSwapBufferSize fresh_left (swapBuffer_left st1) (bufferSize_left st1)
             (mLeft_bytes st1) (usesCrlf st1) of
        Inl e \<Rightarrow> Inl e
      | Inr L \<Rightarrow>
          (let st2 = st1\<lparr>bufferSize_left := r_bufferSize L, mLeft_bytes := r_src L,
                         usesCrlf := r_crlf L\<rparr>
           in
           if r_abort L then Inr (None, st2)
           else
     (case refill chk tmpSwapBufferSize fresh_right (swapBuffer_right st2) (bufferSize_right st2)
             (mRight_bytes st2) (usesCrlf st2) of
        Inl e \<Rightarrow> Inl e
      | Inr R \<Rightarrow>
          (let st3 = st2\<lparr>bufferSize_right := r_bufferSize R, mRight_bytes := r_src R,
                         usesCrlf := r_crlf R\<rparr>
           in
           if r_abort R then Inr (None, st3)
           else
             (let st4 = (if r_eof L \<and> r_eof R then st3\<lparr>eof := True\<rparr> else st3)
              in
              if \<not> eof st4 then
     (case resync_cuts (r_data L) (r_chunkEnd L) (r_data R) (r_chunkEnd R) of
        Inl e \<Rightarrow> Inl e
      | Inr (chunkEnd, chunkEnd_right) \<Rightarrow>
     (case cut_side (r_data L) chunkEnd (r_cbufSize L) (usesCrlf st4) (swapBuffer_left st4) of
        Inl e \<Rightarrow> Inl e
      | Inr (size_left, swap_left, fill_left) \<Rightarrow>
     (case cut_side (r_data R) chunkEnd_right (r_cbufSize R) (usesCrlf st4)
             (swapBuffer_right st4) of
        Inl e \<Rightarrow> Inl e
      | Inr (size_right, swap_right, fill_right) \<Rightarrow>
          Inr (Some \<lparr>leftpart = \<lparr>chunk_data = r_data L, chunk_size = size_left\<rparr>,
                      rightpart = \<lparr>chunk_data = r_data R, chunk_size = size_right\<rparr>\<rparr>,
               st4\<lparr>swapBuffer_left := swap_left, bufferSize_left := fill_left,
                    swapBuffer_right := swap_right, bufferSize_right := fill_right\<rparr>))))
              else
                Inr (Some \<lparr>leftpart = \<lparr>chunk_data = r_data L, chunk_size = r_size L\<rparr>,
                            rightpart = \<lparr>chunk_data = r_data R, chunk_size = r_size R\<rparr>\<rparr>,
                     st4)))))))"

text \<open>Successive calls, one for each pair of buffers the pools hand out.\<close>

fun calls ::
  "bool \<Rightarrow> int \<Rightarrow> (char list \<times> char list) list \<Rightarrow> FastqChunkReaderPair
     \<Rightarrow> fault + (ChunkPair option list \<times> FastqChunkReaderPair)" where
  "calls chk tmpSwapBufferSize [] st = Inr ([], st)"
| "calls chk tmpSwapBufferSize (f # fs) st =
     (case readNextChunkPair_interleaved chk tmpSwapBufferSize (fst f) (snd f) st of
        Inl e \<Rightarrow> Inl e
      | Inr (res, st') \<Rightarrow>
          (case calls chk tmpSwapBufferSize fs st' of
             Inl e \<Rightarrow> Inl e
           | Inr (rs, st'') \<Rightarrow> Inr (res # rs, st'')))"

text \<open>The reader after construction on two files, with swap buffers of a given size.\<close>

definition open_pair :: "nat \<Rightarrow> char list \<Rightarrow> char list \<Rightarrow> FastqChunkReaderPair" where
  "open_pair SwapBufferSize left right =
     \<lparr>swapBuffer_left = replicate SwapBufferSize (CHR 0x00),
      swapBuffer_right = replicate SwapBufferSize (CHR 0x00),
      bufferSize_left = 0, bufferSize_right = 0, eof = False, usesCrlf = False,
      mLeft_bytes = left, mRight_bytes = right,
      fastqPool_left = \<lparr>acquired = 0, released = 0\<rparr>,
      fastqPool_right = \<lparr>acquired = 0, released = 0\<rparr>\<rparr>"

section \<open>Properties of the paired chunk reader\<close>

lemma eof_call:
  assumes "eof st"
  shows "readNextChunkPair_interleaved chk T fl fr st =
     Inr (None, st\<lparr>fastqPool_left := Release (Acquire (fastqPool_left st)),
                    fastqPool_right := Release (Acquire (fastqPool_right st))\<rparr>)"
  using assms by (simp add: readNextChunkPair_interleaved_def Let_def)

text \<open>
  Claim C4. From a state in which \<open>eof\<close> is set, every further call, whatever buffers the
  pools hand out, returns \<^verbatim>\<open>NULL\<close>, leaves \<open>eof\<close> set, reads no byte of either
  file, and releases the two chunks it acquired. The flag is assigned in one place only,
  where it is set.
\<close>

theorem eof_latched_calls:
  assumes "eof st"
  shows "\<exists>st'. calls chk T fs st = Inr (replicate (length fs) None, st')
     \<and> eof st'
     \<and> mLeft_bytes st' = mLeft_bytes st \<and> mRight_bytes st' = mRight_bytes st
     \<and> acquired (fastqPool_left st') = acquired (fastqPool_left st) + length fs
     \<and> released (fastqPool_left st') = released (fastqPool_left st) + length fs
     \<and> acquired (fastqPool_right st') = acquired (fastqPool_right st) + length fs
     \<and> released (fastqPool_right st') = released (fastqPool_right st) + length fs"
  using assms
proof (induction fs arbitrary: st)
  case Nil
  then show ?case by simp
next
  case (Cons f fs)
  let ?st1 = "st\<lparr>fastqPool_left := Release (Acquire (fastqPool_left st)),
                    fastqPool_right := Release (Acquire (fastqPool_right st))\<rparr>"
  have e: "eof ?st1" using Cons.prems by simp
  from Cons.IH [OF e] obtain st' where
    c: "calls chk T fs ?st1 = Inr (replicate (length fs) None, st')" and r: "eof st'"
    "mLeft_bytes st' = mLeft_bytes ?st1" "mRight_bytes st' = mRight_bytes ?st1"
    "acquired (fastqPool_left st') = acquired (fastqPool_left ?st1) + length fs"
    "released (fastqPool_left st') = released (fastqPool_left ?st1) + length fs"
    "acquired (fastqPool_right st') = acquired (fastqPool_right ?st1) + length fs"
    "released (fastqPool_right st') = released (fastqPool_right ?st1) + length fs"
    by blast
  have "calls chk T (f # fs) st = Inr (replicate (length (f # fs)) None, st')"
    using eof_call [OF Cons.prems, of chk T "fst f" "snd f"] c by simp
  with r show ?case by (simp add: Acquire_def Release_def)
qed

lemma SkipToEol_flag:
  assumes "SkipToEol chk buf pos sz crlf = Inr (p, c)"
  shows "c = (crlf \<or> (1 \<le> p \<and> SkipToEol_loop buf pos sz = Inr (p - 1)
              \<and> rd buf (p - 1) = Inr CR \<and> rd buf p = Inr LF))"
proof -
  from assms obtain q where q: "SkipToEol_loop buf pos sz = Inr q"
    by (auto simp: SkipToEol_def split: sum.splits)
  from assms q obtain a where a: "rd buf q = Inr a"
    by (auto simp: SkipToEol_def split: sum.splits)
  show ?thesis
  proof (cases "a = CR \<and> q < sz")
    case False
    with assms q a have "p = q" "c = crlf"
      by (auto simp: SkipToEol_def split: sum.splits if_splits)
    with q show ?thesis by auto
  next
    case True
    with assms q a obtain d where d: "rd buf (q + 1) = Inr d"
      by (auto simp: SkipToEol_def split: sum.splits)
    show ?thesis
    proof (cases "d = LF")
      case l: True
      with assms q a d True have "p = q + 1" "c = True"
        by (auto simp: SkipToEol_def split: sum.splits if_splits)
      with q a d True l show ?thesis by simp
    next
      case l: False
      with assms q a d True have "p = q" "c = crlf"
        by (auto simp: SkipToEol_def split: sum.splits if_splits)
      with q show ?thesis by auto
    qed
  qed
qed

lemma SkipToEol_mono: "SkipToEol chk buf pos sz crlf = Inr (p, c) \<Longrightarrow> crlf \<Longrightarrow> c"
  using SkipToEol_flag by blast

lemma find_at_mono: "find_at chk buf pos sz crlf = Inr (p, c) \<Longrightarrow> crlf \<Longrightarrow> c"
proof (induction chk buf pos sz crlf rule: find_at.induct)
  case (1 chk buf pos sz crlf)
  from "1.prems"(1) obtain a where a: "rd buf pos = Inr a"
    by (subst (asm) find_at.simps) (auto split: sum.splits)
  show ?case
  proof (cases "a \<noteq> AT")
    case False
    with "1.prems" a show ?thesis by (subst (asm) find_at.simps) auto
  next
    case True
    with "1.prems"(1) a obtain q c1 where s: "SkipToEol chk buf pos sz crlf = Inr (q, c1)"
      and f: "find_at chk buf (q + 1) sz c1 = Inr (p, c)"
      by (subst (asm) find_at.simps) (auto split: sum.splits)
    from SkipToEol_mono [OF s "1.prems"(2)] have "c1" .
    from "1.IH" [OF a True s refl f this] show ?thesis .
  qed
qed

lemma GetNextRecordPos_mono:
  assumes "GetNextRecordPos chk buf pos sz crlf = Inr (p, c)" and "crlf"
  shows "c"
proof -
  from assms(1) obtain p1 c1 where 1: "SkipToEol chk buf pos sz crlf = Inr (p1, c1)"
    by (auto simp: GetNextRecordPos_def split: sum.splits)
  from assms(1) 1 obtain p2 c2 where 2: "find_at chk buf (p1 + 1) sz c1 = Inr (p2, c2)"
    by (auto simp: GetNextRecordPos_def split: sum.splits)
  from assms(1) 1 2 obtain p3 c3 where 3: "SkipToEol chk buf p2 sz c2 = Inr (p3, c3)"
    by (auto simp: GetNextRecordPos_def split: sum.splits)
  have c3: "c3"
    using SkipToEol_mono [OF 3] find_at_mono [OF 2] SkipToEol_mono [OF 1] assms(2) by blast
  from assms(1) 1 2 3 have "c = c3 \<or> (\<exists>p4. SkipToEol chk buf (p3 + 1) sz c3 = Inr (p4, c))"
    by (auto simp: GetNextRecordPos_def split: sum.splits if_splits)
  with c3 SkipToEol_mono show ?thesis by blast
qed

definition full_refill :: "char list \<Rightarrow> int \<Rightarrow> char list \<Rightarrow> bool" where
  "full_refill fresh bufferSize src =
     (0 < int (length fresh) - bufferSize \<and> int (length fresh) - bufferSize \<le> int (length src))"


lemma slice_Inr:
  assumes "slice buf a b = Inr bs"
  shows "bs = take (nat (b - a)) (drop (nat a) buf) \<and> int (length bs) = max 0 (b - a)
         \<and> (a \<noteq> b \<longrightarrow> 0 \<le> a \<and> a < b \<and> b \<le> int (length buf))"
  using assms by (auto simp: slice_def split: if_splits)

lemma write_at_Inr:
  assumes "write_at buf off bytes = Inr b'"
  shows "length b' = length buf
     \<and> (bytes \<noteq> [] \<longrightarrow> 0 \<le> off \<and> off + int (length bytes) \<le> int (length buf)
          \<and> b' = take (nat off) buf @ bytes @ drop (nat off + length bytes) buf)
     \<and> (bytes = [] \<longrightarrow> b' = buf)"
  using assms by (auto simp: write_at_def split: if_splits)

lemma flush_swap_Inr:
  assumes "flush_swap fresh swap b = Inr (d, s, b')"
  shows "s = int (length (take (nat b) swap))"
    and "b' = (if b > 0 then 0 else b)"
    and "length d = length fresh"
    and "length (take (nat b) swap) \<le> length fresh"
    and "b > 0 \<longrightarrow> b \<le> int (length swap)"
    and "take (length (take (nat b) swap)) d = take (nat b) swap"
proof -
  have "s = int (length (take (nat b) swap)) \<and> b' = (if b > 0 then 0 else b)
     \<and> length d = length fresh \<and> length (take (nat b) swap) \<le> length fresh
     \<and> (b > 0 \<longrightarrow> b \<le> int (length swap))
     \<and> take (length (take (nat b) swap)) d = take (nat b) swap"
  proof (cases "b > 0")
    case False
    with assms show ?thesis by (simp add: flush_swap_def)
  next
    case True
    with assms obtain bs where bs: "slice swap 0 b = Inr bs"
      and w: "write_at fresh 0 bs = Inr d" and s: "s = b" and b': "b' = 0"
      by (auto simp: flush_swap_def split: sum.splits)
    from slice_Inr [OF bs] True have 1: "bs = take (nat b) swap" "int (length bs) = b"
      "b \<le> int (length swap)" by auto
    then have ne: "bs \<noteq> []" using True by auto
    from write_at_Inr [OF w] ne have 2: "length d = length fresh"
      "int (length bs) \<le> int (length fresh)" "d = bs @ drop (length bs) fresh" by auto
    have "take (length bs) d = bs" by (subst 2(3)) simp
    with 1 2(1,2) s b' True show ?thesis by simp
  qed
  then show "s = int (length (take (nat b) swap))"
    and "b' = (if b > 0 then 0 else b)"
    and "length d = length fresh"
    and "length (take (nat b) swap) \<le> length fresh"
    and "b > 0 \<longrightarrow> b \<le> int (length swap)"
    and "take (length (take (nat b) swap)) d = take (nat b) swap"
    by blast+
qed

lemma refill_Inr:
  assumes "refill chk T fresh swap b src crlf = Inr R"
  defines "carry \<equiv> take (nat b) swap"
    and "toRead \<equiv> int (length fresh) - b"
  defines "got \<equiv> take (nat toRead) src"
  shows "r_src R = drop (nat toRead) src"
    and "r_bufferSize R = (if b > 0 then 0 else b)"
    and "length (r_data R) = length fresh"
    and "take (length carry + length got) (r_data R) = carry @ got"
    and "length carry + length got \<le> length fresh"
    and "b > 0 \<longrightarrow> b \<le> int (length swap)"
    and "full_refill fresh b src \<longrightarrow>
          (\<exists>p. GetNextRecordPos chk (r_data R) (nat ((int (length fresh) - T) mod 2 ^ 64))
                  (length fresh) crlf = Inr (p, r_crlf R) \<and> r_chunkEnd R = int p)
          \<and> r_cbufSize R = int (length fresh) \<and> r_size R = int (length carry)
          \<and> \<not> r_eof R \<and> \<not> r_abort R \<and> length carry + length got = length fresh"
    and "\<not> full_refill fresh b src \<longrightarrow>
          r_eof R \<and> r_crlf R = crlf \<and> r_chunkEnd R = r_size R + 1
          \<and> r_cbufSize R = r_size R + 1
          \<and> (got \<noteq> [] \<longrightarrow> r_size R = int (length carry) + int (length got) - 1
                                      - (if crlf then 1 else 0) \<and> \<not> r_abort R
                                \<and> r_src R = [])
          \<and> (got = [] \<longrightarrow> r_size R = int (length carry) \<and> r_abort R = (carry = []))"
proof -
  from assms(1) obtain d1 s1 b1 where fl: "flush_swap fresh swap b = Inr (d1, s1, b1)"
    by (auto simp: refill_def Let_def split: sum.splits)
  note f0 = flush_swap_Inr [OF fl, folded carry_def]
  note fs = f0(1) and fb = f0(2) and flen = f0(3) and fc = f0(4) and fsw = f0(5)
    and ftake = f0(6)
  from assms(1) fl obtain data2 where w: "write_at d1 s1 got = Inr data2"
    by (auto simp: refill_def Let_def source_Read_def got_def toRead_def split: sum.splits)
  note wf = write_at_Inr [OF w]
  from wf have wlen: "length data2 = length d1" by simp
  have s1: "nat s1 = length carry" using fs by simp
  let ?r = "int (length got)"
  have R: "(if ?r > 0 then
              if ?r = toRead then
                (case GetNextRecordPos chk data2 (nat ((int (length fresh) - T) mod 2 ^ 64))
                        (nat (int (length fresh))) crlf of
                   Inl e \<Rightarrow> Inl e
                 | Inr (p, crlf') \<Rightarrow>
                     Inr \<lparr>r_data = data2, r_size = s1, r_chunkEnd = int p,
                          r_cbufSize = int (length fresh), r_eof = False, r_abort = False,
                          r_bufferSize = b1, r_src = drop (nat toRead) src, r_crlf = crlf'\<rparr>)
              else
                Inr \<lparr>r_data = data2, r_size = s1 + (?r - 1) - (if crlf then 1 else 0),
                     r_chunkEnd = s1 + (?r - 1) - (if crlf then 1 else 0) + 1,
                     r_cbufSize = s1 + (?r - 1) - (if crlf then 1 else 0) + 1, r_eof = True,
                     r_abort = False, r_bufferSize = b1, r_src = drop (nat toRead) src,
                     r_crlf = crlf\<rparr>
            else
              Inr \<lparr>r_data = data2, r_size = s1, r_chunkEnd = s1 + 1, r_cbufSize = s1 + 1,
                   r_eof = True, r_abort = (s1 = 0), r_bufferSize = b1,
                   r_src = drop (nat toRead) src, r_crlf = crlf\<rparr>) = Inr R"
    using assms(1)
    unfolding refill_def Let_def source_Read_def fst_conv snd_conv toRead_def [symmetric]
      got_def [symmetric] fl sum.case prod.case w .
  have full: "full_refill fresh b src \<longleftrightarrow> ?r > 0 \<and> ?r = toRead"
    by (auto simp: full_refill_def got_def toRead_def)
  have d: "r_data R = data2" and src: "r_src R = drop (nat toRead) src" and bs: "r_bufferSize R = b1"
    using R by (auto split: if_splits sum.splits)
  show "r_src R = drop (nat toRead) src" by (rule src)
  show "r_bufferSize R = (if b > 0 then 0 else b)" using bs fb by simp
  show "length (r_data R) = length fresh" using d wlen flen by simp
  show le: "length carry + length got \<le> length fresh"
  proof (cases "got = []")
    case True
    then show ?thesis using fc by simp
  next
    case False
    with wf have "s1 + int (length got) \<le> int (length d1)" by simp
    then show ?thesis using fs flen by simp
  qed
  show "take (length carry + length got) (r_data R) = carry @ got"
  proof (cases "got = []")
    case True
    with wf have "data2 = d1" by simp
    with True d ftake show ?thesis by simp
  next
    case False
    with wf have "data2 = take (nat s1) d1 @ got @ drop (nat s1 + length got) d1" by simp
    moreover have "take (nat s1) d1 = carry" using ftake s1 by simp
    ultimately show ?thesis using d by simp
  qed
  show "b > 0 \<longrightarrow> b \<le> int (length swap)" by (rule fsw)
  show "full_refill fresh b src \<longrightarrow>
          (\<exists>p. GetNextRecordPos chk (r_data R) (nat ((int (length fresh) - T) mod 2 ^ 64))
                  (length fresh) crlf = Inr (p, r_crlf R) \<and> r_chunkEnd R = int p)
          \<and> r_cbufSize R = int (length fresh) \<and> r_size R = int (length carry)
          \<and> \<not> r_eof R \<and> \<not> r_abort R \<and> length carry + length got = length fresh"
  proof
    assume a: "full_refill fresh b src"
    then have r: "?r > 0" "?r = toRead" using full by blast+
    from R r obtain p c where g: "GetNextRecordPos chk data2
        (nat ((int (length fresh) - T) mod 2 ^ 64)) (length fresh) crlf = Inr (p, c)"
      and R': "R = \<lparr>r_data = data2, r_size = s1, r_chunkEnd = int p,
                    r_cbufSize = int (length fresh), r_eof = False, r_abort = False,
                    r_bufferSize = b1, r_src = drop (nat toRead) src, r_crlf = c\<rparr>"
      by (auto split: sum.splits)
    have "int (length carry) + int (length got) = int (length fresh)"
    proof (cases "b > 0")
      case True
      then have "int (length carry) = b" using fsw by (simp add: carry_def)
      with r show ?thesis by (simp add: toRead_def)
    next
      case False
      then have "carry = []" by (simp add: carry_def)
      moreover have "b = 0"
      proof (rule ccontr)
        assume "b \<noteq> 0"
        with False have "int (length fresh) < toRead" by (simp add: toRead_def)
        moreover have "?r \<le> int (length fresh)" using le by simp
        ultimately show False using r by simp
      qed
      ultimately show ?thesis using r by (simp add: toRead_def)
    qed
    then have "length carry + length got = length fresh" by linarith
    with g R' fs show "(\<exists>p. GetNextRecordPos chk (r_data R)
                  (nat ((int (length fresh) - T) mod 2 ^ 64))
                  (length fresh) crlf = Inr (p, r_crlf R) \<and> r_chunkEnd R = int p)
          \<and> r_cbufSize R = int (length fresh) \<and> r_size R = int (length carry)
          \<and> \<not> r_eof R \<and> \<not> r_abort R \<and> length carry + length got = length fresh"
      by simp
  qed
  show "\<not> full_refill fresh b src \<longrightarrow>
          r_eof R \<and> r_crlf R = crlf \<and> r_chunkEnd R = r_size R + 1
          \<and> r_cbufSize R = r_size R + 1
          \<and> (got \<noteq> [] \<longrightarrow> r_size R = int (length carry) + int (length got) - 1
                                      - (if crlf then 1 else 0) \<and> \<not> r_abort R
                                \<and> r_src R = [])
          \<and> (got = [] \<longrightarrow> r_size R = int (length carry) \<and> r_abort R = (carry = []))"
  proof
    assume a: "\<not> full_refill fresh b src"
    show "r_eof R \<and> r_crlf R = crlf \<and> r_chunkEnd R = r_size R + 1
          \<and> r_cbufSize R = r_size R + 1
          \<and> (got \<noteq> [] \<longrightarrow> r_size R = int (length carry) + int (length got) - 1
                                      - (if crlf then 1 else 0) \<and> \<not> r_abort R
                                \<and> r_src R = [])
          \<and> (got = [] \<longrightarrow> r_size R = int (length carry) \<and> r_abort R = (carry = []))"
    proof (cases "got = []")
      case True
      with R have "R = \<lparr>r_data = data2, r_size = s1, r_chunkEnd = s1 + 1, r_cbufSize = s1 + 1,
                   r_eof = True, r_abort = (s1 = 0), r_bufferSize = b1,
                   r_src = drop (nat toRead) src, r_crlf = crlf\<rparr>" by simp
      with True fs show ?thesis by simp
    next
      case False
      then have pos: "?r > 0" by simp
      have ne: "?r \<noteq> toRead" using a full pos by blast
      with pos R have R': "R = \<lparr>r_data = data2, r_size = s1 + (?r - 1) - (if crlf then 1 else 0),
                     r_chunkEnd = s1 + (?r - 1) - (if crlf then 1 else 0) + 1,
                     r_cbufSize = s1 + (?r - 1) - (if crlf then 1 else 0) + 1, r_eof = True,
                     r_abort = False, r_bufferSize = b1, r_src = drop (nat toRead) src,
                     r_crlf = crlf\<rparr>" by simp
      have "length src \<le> nat toRead"
        using ne pos by (auto simp: got_def min_def split: if_splits)
      then have "drop (nat toRead) src = []" by simp
      with R' False fs show ?thesis by simp
    qed
  qed
qed

lemma refill_flag:
  assumes "refill chk T fresh swap bufferSize src crlf = Inr R"
  shows "(crlf \<longrightarrow> r_crlf R) \<and> (\<not> full_refill fresh bufferSize src \<longrightarrow> r_crlf R = crlf)"
  using refill_Inr(7,8) [OF assms] GetNextRecordPos_mono by blast


definition acquired_both :: "FastqChunkReaderPair \<Rightarrow> FastqChunkReaderPair" where
  "acquired_both st = st\<lparr>fastqPool_left := Acquire (fastqPool_left st),
                           fastqPool_right := Acquire (fastqPool_right st)\<rparr>"

lemma call_cases:
  assumes "readNextChunkPair_interleaved chk T fl fr st = Inr (res, st')"
  obtains
    (latched) "eof st" and "res = None"
      and "st' = (acquired_both st)\<lparr>fastqPool_left := Release (Acquire (fastqPool_left st)),
                   fastqPool_right := Release (Acquire (fastqPool_right st))\<rparr>"
  | (abort_left) L where "\<not> eof st"
      and "refill chk T fl (swapBuffer_left st) (bufferSize_left st) (mLeft_bytes st)
             (usesCrlf st) = Inr L"
      and "r_abort L" and "res = None"
      and "st' = (acquired_both st)\<lparr>bufferSize_left := r_bufferSize L, mLeft_bytes := r_src L,
                   usesCrlf := r_crlf L\<rparr>"
  | (abort_right) L R where "\<not> eof st"
      and "refill chk T fl (swapBuffer_left st) (bufferSize_left st) (mLeft_bytes st)
             (usesCrlf st) = Inr L"
      and "refill chk T fr (swapBuffer_right st) (bufferSize_right st) (mRight_bytes st)
             (r_crlf L) = Inr R"
      and "\<not> r_abort L" and "r_abort R" and "res = None"
      and "st' = (acquired_both st)\<lparr>bufferSize_left := r_bufferSize L, mLeft_bytes := r_src L,
                   usesCrlf := r_crlf L, bufferSize_right := r_bufferSize R,
                   mRight_bytes := r_src R, usesCrlf := r_crlf R\<rparr>"
  | (final) L R where "\<not> eof st"
      and "refill chk T fl (swapBuffer_left st) (bufferSize_left st) (mLeft_bytes st)
             (usesCrlf st) = Inr L"
      and "refill chk T fr (swapBuffer_right st) (bufferSize_right st) (mRight_bytes st)
             (r_crlf L) = Inr R"
      and "\<not> r_abort L" and "\<not> r_abort R" and "r_eof L" and "r_eof R"
      and "res = Some \<lparr>leftpart = \<lparr>chunk_data = r_data L, chunk_size = r_size L\<rparr>,
                        rightpart = \<lparr>chunk_data = r_data R, chunk_size = r_size R\<rparr>\<rparr>"
      and "st' = (acquired_both st)\<lparr>bufferSize_left := r_bufferSize L, mLeft_bytes := r_src L,
                   usesCrlf := r_crlf L, bufferSize_right := r_bufferSize R,
                   mRight_bytes := r_src R, usesCrlf := r_crlf R, eof := True\<rparr>"
  | (resync) L R cL cR sizeL swapL fillL sizeR swapR fillR where "\<not> eof st"
      and "refill chk T fl (swapBuffer_left st) (bufferSize_left st) (mLeft_bytes st)
             (usesCrlf st) = Inr L"
      and "refill chk T fr (swapBuffer_right st) (bufferSize_right st) (mRight_bytes st)
             (r_crlf L) = Inr R"
      and "\<not> r_abort L" and "\<not> r_abort R" and "\<not> (r_eof L \<and> r_eof R)"
      and "resync_cuts (r_data L) (r_chunkEnd L) (r_data R) (r_chunkEnd R) = Inr (cL, cR)"
      and "cut_side (r_data L) cL (r_cbufSize L) (r_crlf R) (swapBuffer_left st)
             = Inr (sizeL, swapL, fillL)"
      and "cut_side (r_data R) cR (r_cbufSize R) (r_crlf R) (swapBuffer_right st)
             = Inr (sizeR, swapR, fillR)"
      and "res = Some \<lparr>leftpart = \<lparr>chunk_data = r_data L, chunk_size = sizeL\<rparr>,
                        rightpart = \<lparr>chunk_data = r_data R, chunk_size = sizeR\<rparr>\<rparr>"
      and "st' = (acquired_both st)\<lparr>bufferSize_left := r_bufferSize L, mLeft_bytes := r_src L,
                   usesCrlf := r_crlf L, bufferSize_right := r_bufferSize R,
                   mRight_bytes := r_src R, usesCrlf := r_crlf R,
                   swapBuffer_left := swapL, bufferSize_left := fillL,
                   swapBuffer_right := swapR, bufferSize_right := fillR\<rparr>"
proof (cases "eof st")
  case True
  with assms have "res = None"
    "st' = (acquired_both st)\<lparr>fastqPool_left := Release (Acquire (fastqPool_left st)),
                   fastqPool_right := Release (Acquire (fastqPool_right st))\<rparr>"
    by (auto simp: readNextChunkPair_interleaved_def Let_def acquired_both_def)
  with True show ?thesis by (intro latched)
next
  case ne: False
  let ?st1 = "acquired_both st"
  from assms ne obtain L where L: "refill chk T fl (swapBuffer_left st) (bufferSize_left st)
      (mLeft_bytes st) (usesCrlf st) = Inr L"
    by (auto simp: readNextChunkPair_interleaved_def Let_def split: sum.splits)
  let ?st2 = "?st1\<lparr>bufferSize_left := r_bufferSize L, mLeft_bytes := r_src L,
                      usesCrlf := r_crlf L\<rparr>"
  show ?thesis
  proof (cases "r_abort L")
    case True
    with assms ne L have "res = None" "st' = ?st2"
      by (simp_all add: readNextChunkPair_interleaved_def Let_def acquired_both_def)
    with ne L True show ?thesis by (intro abort_left)
  next
    case aL: False
    from assms ne L aL obtain R where R: "refill chk T fr (swapBuffer_right st)
        (bufferSize_right st) (mRight_bytes st) (r_crlf L) = Inr R"
      by (auto simp: readNextChunkPair_interleaved_def Let_def split: sum.splits)
    let ?st3 = "?st2\<lparr>bufferSize_right := r_bufferSize R, mRight_bytes := r_src R,
                        usesCrlf := r_crlf R\<rparr>"
    show ?thesis
    proof (cases "r_abort R")
      case True
      with assms ne L aL R have "res = None" "st' = ?st3"
        by (simp_all add: readNextChunkPair_interleaved_def Let_def acquired_both_def)
      with ne L R aL True show ?thesis by (intro abort_right)
    next
      case aR: False
      show ?thesis
      proof (cases "r_eof L \<and> r_eof R")
        case True
        with assms ne L aL R aR
        have "res = Some \<lparr>leftpart = \<lparr>chunk_data = r_data L, chunk_size = r_size L\<rparr>,
                        rightpart = \<lparr>chunk_data = r_data R, chunk_size = r_size R\<rparr>\<rparr>"
          "st' = ?st3\<lparr>eof := True\<rparr>"
          by (simp_all add: readNextChunkPair_interleaved_def Let_def acquired_both_def)
        with ne L R aL aR True show ?thesis by (intro final) simp_all
      next
        case e: False
        from assms ne L aL R aR e obtain cL cR where
          c: "resync_cuts (r_data L) (r_chunkEnd L) (r_data R) (r_chunkEnd R) = Inr (cL, cR)"
          by (auto simp: readNextChunkPair_interleaved_def Let_def acquired_both_def
              split: sum.splits)
        from assms ne L aL R aR e c obtain sizeL swapL fillL where
          l: "cut_side (r_data L) cL (r_cbufSize L) (r_crlf R) (swapBuffer_left st)
                = Inr (sizeL, swapL, fillL)"
          by (auto simp: readNextChunkPair_interleaved_def Let_def acquired_both_def
              split: sum.splits)
        from assms ne L aL R aR e c l obtain sizeR swapR fillR where
          r: "cut_side (r_data R) cR (r_cbufSize R) (r_crlf R) (swapBuffer_right st)
                = Inr (sizeR, swapR, fillR)"
          by (auto simp: readNextChunkPair_interleaved_def Let_def acquired_both_def
              split: sum.splits)
        from assms ne L aL R aR e c l r
        have "res = Some \<lparr>leftpart = \<lparr>chunk_data = r_data L, chunk_size = sizeL\<rparr>,
                        rightpart = \<lparr>chunk_data = r_data R, chunk_size = sizeR\<rparr>\<rparr>"
          "st' = ?st3\<lparr>swapBuffer_left := swapL, bufferSize_left := fillL,
                   swapBuffer_right := swapR, bufferSize_right := fillR\<rparr>"
          by (simp_all add: readNextChunkPair_interleaved_def Let_def acquired_both_def)
        with ne L R aL aR e c l r show ?thesis by (intro resync)
      qed
    qed
  qed
qed


subsection \<open>The re-synchronisation\<close>

text \<open>The number of \<open>\n\<close> bytes among the first \<open>n\<close> bytes of a buffer.\<close>

definition newlines :: "char list \<Rightarrow> int \<Rightarrow> int" where
  "newlines buf n = int (length (filter (\<lambda>c. c = LF) (take (nat n) buf)))"

lemma rdi_Inr: "rdi buf i = Inr c \<Longrightarrow> 0 \<le> i \<and> nat i < length buf \<and> buf ! nat i = c"
  by (auto simp: rdi_def rd_def split: if_splits)

lemma newlines_step:
  assumes "0 \<le> i" and "nat i < length buf"
  shows "newlines buf (i + 1) = newlines buf i + (if buf ! nat i = LF then 1 else 0)"
proof -
  have "nat (i + 1) = Suc (nat i)" using assms(1) by simp
  then show ?thesis using assms(2) by (simp add: newlines_def take_Suc_conv_app_nth)
qed

lemma count_loop_newlines:
  "count_loop buf i n acc = Inr k \<Longrightarrow> 0 \<le> i \<Longrightarrow>
     k = acc + (if i \<le> n then newlines buf n - newlines buf i else 0)"
proof (induction buf i n acc rule: count_loop.induct)
  case (1 buf i n acc)
  show ?case
  proof (cases "i < n")
    case False
    with "1.prems" have "k = acc" by (subst (asm) count_loop.simps) simp
    moreover from False have "i \<le> n \<Longrightarrow> i = n" by simp
    ultimately show ?thesis by auto
  next
    case True
    with "1.prems" obtain c where c: "rdi buf i = Inr c" and m: "i \<noteq> 2147483647"
      and r: "count_loop buf (i + 1) n (if c = LF then acc + 1 else acc) = Inr k"
      by (subst (asm) count_loop.simps) (auto split: sum.splits if_splits)
    from rdi_Inr [OF c] have i: "nat i < length buf" "buf ! nat i = c" by simp_all
    from "1.IH" [OF True c m r] "1.prems"(2) True
    have "k = (if c = LF then acc + 1 else acc) + (newlines buf n - newlines buf (i + 1))"
      by simp
    with newlines_step [OF "1.prems"(2) i(1)] i(2) True show ?thesis by simp
  qed
qed

lemma count_line_newlines:
  assumes "count_line buf n = Inr k"
  shows "k = newlines buf n"
proof -
  from count_loop_newlines [OF assms [unfolded count_line_def]]
  have "k = (if 0 \<le> n then newlines buf n - newlines buf 0 else 0)" by simp
  then show ?thesis by (simp add: newlines_def)
qed

lemma walk_left_newlines:
  "walk_left buf e d = Inr c \<Longrightarrow> 0 \<le> d \<Longrightarrow> 0 \<le> c \<Longrightarrow>
     newlines buf c = newlines buf (e + 1) - d \<and> 1 \<le> c \<and> c \<le> e + 1"
proof (induction buf e d rule: walk_left.induct)
  case (1 buf e d)
  show ?case
  proof (cases "e \<ge> 0")
    case False
    with "1.prems" show ?thesis by (subst (asm) walk_left.simps) simp
  next
    case True
    with "1.prems"(1) obtain x where x: "rdi buf e = Inr x"
      by (subst (asm) walk_left.simps) (auto split: sum.splits)
    from rdi_Inr [OF x] have e: "nat e < length buf" "buf ! nat e = x" by simp_all
    note n = newlines_step [OF True e(1)]
    show ?thesis
    proof (cases "x = LF")
      case l: True
      show ?thesis
      proof (cases "d - 1 = - 1")
        case t: True
        with "1.prems"(1) True x l have "c = e + 1"
          by (subst (asm) walk_left.simps) simp
        with t True show ?thesis by simp
      next
        case f: False
        with "1.prems"(1) True x l have w: "walk_left buf (e - 1) (d - 1) = Inr c"
          by (subst (asm) walk_left.simps) simp
        from f "1.prems"(2) have "0 \<le> d - 1" by simp
        from "1.IH"(1) [OF True x l f w this "1.prems"(3)] n e(2) l show ?thesis by simp
      qed
    next
      case l: False
      with "1.prems"(1) True x have w: "walk_left buf (e - 1) d = Inr c"
        by (subst (asm) walk_left.simps) simp
      from "1.IH"(2) [OF True x l w "1.prems"(2,3)] n e(2) l show ?thesis by simp
    qed
  qed
qed

lemma walk_right_left: "walk_right buf e d = walk_left buf e (- d)"
proof (induction buf e d rule: walk_right.induct)
  case (1 buf e d)
  show ?case
  proof (cases "e \<ge> 0")
    case False
    then show ?thesis by (subst walk_right.simps, subst walk_left.simps) simp
  next
    case True
    show ?thesis
    proof (cases "rdi buf e")
      case (Inl a)
      with True show ?thesis by (subst walk_right.simps, subst walk_left.simps) simp
    next
      case (Inr x)
      show ?thesis
      proof (cases "x = LF")
        case l: True
        show ?thesis
        proof (cases "d + 1 = 1")
          case t: True
          with True Inr l show ?thesis
            by (subst walk_right.simps, subst walk_left.simps) simp
        next
          case f: False
          from "1.IH"(1) [OF True Inr l f] True Inr l f show ?thesis
            by (subst walk_right.simps, subst walk_left.simps) simp
        qed
      next
        case l: False
        from "1.IH"(2) [OF True Inr l] True Inr l show ?thesis
          by (subst walk_right.simps, subst walk_left.simps) simp
      qed
    qed
  qed
qed

lemma walk_left_start:
  assumes "walk_left buf e d = Inr c" and "0 \<le> c"
  shows "0 \<le> e \<and> (\<exists>x. rdi buf e = Inr x)"
  using assms by (subst (asm) walk_left.simps) (auto split: if_splits sum.splits)

lemma resync_cuts_newlines:
  assumes r: "resync_cuts dL eL dR eR = Inr (cL, cR)"
    and c: "0 \<le> cL" "0 \<le> cR"
    and nl: "rdi dL eL \<noteq> Inr LF" "rdi dR eR \<noteq> Inr LF"
  shows "newlines dL cL = newlines dR cR"
proof -
  from r obtain nL where nL: "count_line dL eL = Inr nL"
    by (auto simp: resync_cuts_def split: sum.splits)
  from r nL obtain nR where nR: "count_line dR eR = Inr nR"
    by (auto simp: resync_cuts_def split: sum.splits)
  note kL = count_line_newlines [OF nL] and kR = count_line_newlines [OF nR]
  consider (left) "nL - nR > 0" | (right) "nL - nR < 0" | (none) "nL = nR" by linarith
  then show ?thesis
  proof cases
    case none
    with r nL nR have "cL = eL" "cR = eR" by (simp_all add: resync_cuts_def)
    with none kL kR show ?thesis by simp
  next
    case left
    with r nL nR have w: "walk_left dL eL (nL - nR) = Inr cL" and "cR = eR"
      by (auto simp: resync_cuts_def Let_def split: sum.splits)
    from walk_left_start [OF w c(1)] obtain x where e: "0 \<le> eL" and x: "rdi dL eL = Inr x"
      by blast
    with nl(1) rdi_Inr [OF x] have "dL ! nat eL \<noteq> LF" "nat eL < length dL" by auto
    with newlines_step [OF e] have "newlines dL (eL + 1) = newlines dL eL" by simp
    with walk_left_newlines [OF w _ c(1)] left kL kR \<open>cR = eR\<close> show ?thesis by simp
  next
    case right
    with r nL nR have "walk_right dR eR (nL - nR) = Inr cR" and "cL = eL"
      by (auto simp: resync_cuts_def Let_def split: sum.splits)
    then have w: "walk_left dR eR (nR - nL) = Inr cR" by (simp add: walk_right_left)
    from walk_left_start [OF w c(2)] obtain x where e: "0 \<le> eR" and x: "rdi dR eR = Inr x"
      by blast
    with nl(2) rdi_Inr [OF x] have "dR ! nat eR \<noteq> LF" "nat eR < length dR" by auto
    with newlines_step [OF e] have "newlines dR (eR + 1) = newlines dR eR" by simp
    with walk_left_newlines [OF w _ c(2)] right kL kR \<open>cL = eL\<close> show ?thesis by simp
  qed
qed


lemma find_at_AT: "find_at chk buf pos sz crlf = Inr (p, c) \<Longrightarrow> rd buf p = Inr AT"
proof (induction chk buf pos sz crlf rule: find_at.induct)
  case (1 chk buf pos sz crlf)
  from "1.prems" obtain a where a: "rd buf pos = Inr a"
    by (subst (asm) find_at.simps) (auto split: sum.splits)
  show ?case
  proof (cases "a \<noteq> AT")
    case False
    with "1.prems" a show ?thesis by (subst (asm) find_at.simps) auto
  next
    case True
    with "1.prems" a obtain q c1 where s: "SkipToEol chk buf pos sz crlf = Inr (q, c1)"
      and f: "find_at chk buf (q + 1) sz c1 = Inr (p, c)"
      by (subst (asm) find_at.simps) (auto split: sum.splits)
    from "1.IH" [OF a True s refl f] show ?thesis .
  qed
qed

lemma GetNextRecordPos_AT:
  assumes "GetNextRecordPos chk buf pos sz crlf = Inr (p, c)"
  shows "rd buf p = Inr AT"
proof -
  from assms obtain p1 c1 where 1: "SkipToEol chk buf pos sz crlf = Inr (p1, c1)"
    by (auto simp: GetNextRecordPos_def split: sum.splits)
  from assms 1 obtain p2 c2 where 2: "find_at chk buf (p1 + 1) sz c1 = Inr (p2, c2)"
    by (auto simp: GetNextRecordPos_def split: sum.splits)
  from assms 1 2 obtain p3 c3 where 3: "SkipToEol chk buf p2 sz c2 = Inr (p3, c3)"
    by (auto simp: GetNextRecordPos_def split: sum.splits)
  from assms 1 2 3 have "(p = p3 + 1 \<and> rd buf (p3 + 1) = Inr AT) \<or> p = p2"
    by (auto simp: GetNextRecordPos_def split: sum.splits if_splits)
  with find_at_AT [OF 2] show ?thesis by auto
qed

lemma cut_side_Inr:
  assumes "cut_side buf c cbufSize crlf swap = Inr (sz, swap', fill)"
  shows "sz = c - 1 - (if crlf then 1 else 0)"
    and "fill = cbufSize - c"
    and "c \<noteq> cbufSize \<longrightarrow> 0 \<le> c \<and> c < cbufSize \<and> cbufSize \<le> int (length buf)"
    and "take (nat fill) swap' = take (nat (cbufSize - c)) (drop (nat c) buf)"
proof -
  from assms obtain tail where t: "slice buf c cbufSize = Inr tail"
    and w: "write_at swap 0 tail = Inr swap'"
    and 1: "sz = c - 1 - (if crlf then 1 else 0)" and 2: "fill = cbufSize - c"
    by (auto simp: cut_side_def split: sum.splits)
  note st = slice_Inr [OF t]
  from st have "int (length tail) = max 0 (cbufSize - c)" by blast
  then have len: "length tail = nat fill" using 2 by simp
  from st have tl: "tail = take (nat (cbufSize - c)) (drop (nat c) buf)" by blast
  have "take (length tail) swap' = tail"
  proof (cases "tail = []")
    case True
    then show ?thesis by simp
  next
    case False
    with write_at_Inr [OF w] have "swap' = tail @ drop (length tail) swap" by simp
    then show ?thesis by (metis append_eq_conv_conj)
  qed
  then have 4: "take (nat fill) swap' = take (nat (cbufSize - c)) (drop (nat c) buf)"
    unfolding len using tl by simp
  show "sz = c - 1 - (if crlf then 1 else 0)" by (rule 1)
  show "fill = cbufSize - c" by (rule 2)
  show "c \<noteq> cbufSize \<longrightarrow> 0 \<le> c \<and> c < cbufSize \<and> cbufSize \<le> int (length buf)"
    using st by blast
  show "take (nat fill) swap' = take (nat (cbufSize - c)) (drop (nat c) buf)" by (rule 4)
qed

text \<open>
  The cut point of an emitted chunk, read back from its size: the call sets
  \<^verbatim>\<open>size = chunkEnd - 1\<close>, and one less when \<open>usesCrlf\<close> is set.
\<close>

definition cut_of :: "bool \<Rightarrow> FastqDataChunk \<Rightarrow> int" where
  "cut_of crlf c = chunk_size c + 1 + (if crlf then 1 else 0)"

lemma newlines_records:
  assumes "list_all wf_record rs"
  shows "int (length (filter (\<lambda>c. c = LF) (concat (map (ser [LF]) rs)))) = 4 * int (length rs)"
  using assms
proof (induction rs)
  case Nil
  then show ?case by simp
next
  case (Cons r rs)
  have p: "\<And>l. plain l \<Longrightarrow> filter (\<lambda>c. c = LF) l = []"
    by (auto simp: plain_def filter_empty_conv)
  from Cons.prems have "wf_record r" by simp
  then have "length (filter (\<lambda>c. c = LF) (ser [LF] r)) = 4"
    by (simp add: ser_def wf_record_def p)
  with Cons show ?case by simp
qed

text \<open>
  Where the re-synchronisation does balance the pair: in a call that refills both sides
  fully, the two cut points have the same number of \<open>\n\<close> bytes before them, and
  when both ranges \<open>[0, cut)\<close> are sequences of whole well-formed records terminated
  by \<open>\n\<close>, they hold the same number of records.
\<close>

lemma resync_balances_newlines:
  assumes call: "readNextChunkPair_interleaved chk T fl fr st = Inr (Some p, st')"
    and fullL: "full_refill fl (bufferSize_left st) (mLeft_bytes st)"
    and fullR: "full_refill fr (bufferSize_right st) (mRight_bytes st)"
  shows "newlines (chunk_data (leftpart p)) (cut_of (usesCrlf st') (leftpart p))
       = newlines (chunk_data (rightpart p)) (cut_of (usesCrlf st') (rightpart p))
     \<and> (list_all wf_record rsL \<and> list_all wf_record rsR
        \<and> take (nat (cut_of (usesCrlf st') (leftpart p))) (chunk_data (leftpart p))
            = concat (map (ser [LF]) rsL)
        \<and> take (nat (cut_of (usesCrlf st') (rightpart p))) (chunk_data (rightpart p))
            = concat (map (ser [LF]) rsR)
        \<longrightarrow> length rsL = length rsR)"
  using call
proof (cases rule: call_cases)
  case (final L R)
  with refill_Inr(7) [OF final(2)] fullL show ?thesis by simp
next
  case (resync L R cL cR sizeL swapL fillL sizeR swapR fillR)
  from refill_Inr(7) [OF resync(2)] fullL obtain pL where
    gL: "GetNextRecordPos chk (r_data L) (nat ((int (length fl) - T) mod 2 ^ 64)) (length fl)
           (usesCrlf st) = Inr (pL, r_crlf L)"
    and eL: "r_chunkEnd L = int pL" and bL: "r_cbufSize L = int (length fl)" by blast
  from refill_Inr(7) [OF resync(3)] fullR obtain pR where
    gR: "GetNextRecordPos chk (r_data R) (nat ((int (length fr) - T) mod 2 ^ 64)) (length fr)
           (r_crlf L) = Inr (pR, r_crlf R)"
    and eR: "r_chunkEnd R = int pR" and bR: "r_cbufSize R = int (length fr)" by blast
  have aL: "rdi (r_data L) (r_chunkEnd L) \<noteq> Inr LF"
    using GetNextRecordPos_AT [OF gL] eL by (simp add: rdi_def)
  have aR: "rdi (r_data R) (r_chunkEnd R) \<noteq> Inr LF"
    using GetNextRecordPos_AT [OF gR] eR by (simp add: rdi_def)
  note kL = cut_side_Inr [OF resync(8)] and kR = cut_side_Inr [OF resync(9)]
  have cL: "0 \<le> cL" using kL(3) bL by (cases "cL = r_cbufSize L") simp_all
  have cR: "0 \<le> cR" using kR(3) bR by (cases "cR = r_cbufSize R") simp_all
  have u: "usesCrlf st' = r_crlf R" using resync(11) by simp
  have cutL: "cut_of (usesCrlf st') (leftpart p) = cL"
    and cutR: "cut_of (usesCrlf st') (rightpart p) = cR"
    and dL: "chunk_data (leftpart p) = r_data L" and dR: "chunk_data (rightpart p) = r_data R"
    using resync(10) kL(1) kR(1) u by (auto simp: cut_of_def)
  have eq: "newlines (r_data L) cL = newlines (r_data R) cR"
    by (rule resync_cuts_newlines [OF resync(7) cL cR aL aR])
  show ?thesis
  proof (intro conjI impI)
    show "newlines (chunk_data (leftpart p)) (cut_of (usesCrlf st') (leftpart p))
       = newlines (chunk_data (rightpart p)) (cut_of (usesCrlf st') (rightpart p))"
      using eq cutL cutR dL dR by simp
  next
    assume a: "list_all wf_record rsL \<and> list_all wf_record rsR
        \<and> take (nat (cut_of (usesCrlf st') (leftpart p))) (chunk_data (leftpart p))
            = concat (map (ser [LF]) rsL)
        \<and> take (nat (cut_of (usesCrlf st') (rightpart p))) (chunk_data (rightpart p))
            = concat (map (ser [LF]) rsR)"
    then have "newlines (r_data L) cL = 4 * int (length rsL)"
      and "newlines (r_data R) cR = 4 * int (length rsR)"
      using newlines_records cutL cutR dL dR by (simp_all add: newlines_def)
    with eq show "length rsL = length rsR" by simp
  qed
qed simp_all

subsection \<open>The carry-over\<close>

text \<open>
  The bytes of a side that no chunk has been cut from yet: the fill of the swap buffer,
  then what the byte source has not delivered. What a chunk holds up to its \<open>size\<close>, and
  up to its cut point.
\<close>

definition pending_left :: "FastqChunkReaderPair \<Rightarrow> char list" where
  "pending_left st = take (nat (bufferSize_left st)) (swapBuffer_left st) @ mLeft_bytes st"

definition pending_right :: "FastqChunkReaderPair \<Rightarrow> char list" where
  "pending_right st = take (nat (bufferSize_right st)) (swapBuffer_right st) @ mRight_bytes st"







subsection \<open>The terminator flag\<close>

text \<open>
  The position at which a full refill starts the search for the cut point,
  \<^verbatim>\<open>cbufSize - tmpSwapBufferSize\<close> as an unsigned number, and what it means that the
  search finds well-formed text there: the buffer holds, after some prefix, a record
  \<open>r0\<close> in which the position lies and a record \<open>r1\<close> after it, both terminated
  by \<open>t\<close>.
\<close>

definition search_start :: "int \<Rightarrow> char list \<Rightarrow> nat" where
  "search_start tmpSwapBufferSize fresh = nat ((int (length fresh) - tmpSwapBufferSize) mod 2 ^ 64)"

definition search_window ::
  "string \<Rightarrow> char list \<Rightarrow> fastq_record \<Rightarrow> fastq_record \<Rightarrow> char list \<Rightarrow> nat \<Rightarrow> char list \<Rightarrow> bool" where
  "search_window t pre r0 r1 post pos buf =
     (terminator t \<and> wf_record r0 \<and> wf_record r1 \<and> buf = pre @ ser t r0 @ ser t r1 @ post
      \<and> length pre \<le> pos \<and> pos < length pre + length (ser t r0))"

text \<open>
  After a full refill the chunk holds the first bytes of what was pending, and the search
  sets the flag exactly when the records at the search position are terminated by
  \<open>\r\n\<close>.
\<close>

lemma refill_full_data:
  assumes R: "refill chk T fresh swap b src crlf = Inr R" and f: "full_refill fresh b src"
  shows "r_data R = take (length fresh) (take (nat b) swap @ src)"
proof -
  define carry where "carry = take (nat b) swap"
  define got where "got = take (nat (int (length fresh) - b)) src"
  note r = refill_Inr [OF R, folded carry_def got_def]
  from r(7) f have len: "length carry + length got = length fresh" by blast
  with r(3,4) have d: "r_data R = carry @ got" by simp
  have g: "take (length got) src = got" unfolding got_def by (simp add: min_def)
  have "take (length fresh) (carry @ src) = take (length carry + length got) (carry @ src)"
    using len by simp
  also have "\<dots> = carry @ take (length got) src" by simp
  finally have "take (length fresh) (carry @ src) = carry @ got" using g by simp
  with d show ?thesis by (simp add: carry_def)
qed

lemma refill_full_flag:
  assumes R: "refill chk T fresh swap b src crlf = Inr R" and f: "full_refill fresh b src"
    and w: "search_window t pre r0 r1 post (search_start T fresh)
              (take (length fresh) (take (nat b) swap @ src))"
  shows "r_crlf R = (crlf \<or> t = [CR, LF])"
proof -
  note r = refill_Inr [OF R]
  from r(7) f obtain p where g: "GetNextRecordPos chk (r_data R)
      (nat ((int (length fresh) - T) mod 2 ^ 64)) (length fresh) crlf = Inr (p, r_crlf R)"
    by blast
  from w have t: "terminator t" and r0: "wf_record r0" and r1: "wf_record r1"
    and buf: "r_data R = pre @ ser t r0 @ ser t r1 @ post"
    and lo: "length pre \<le> search_start T fresh"
    and hi: "search_start T fresh < length pre + length (ser t r0)"
    unfolding search_window_def refill_full_data [OF R f, symmetric] by blast+
  define k where "k = search_start T fresh - length pre"
  have k: "k < length (ser t r0)" and s: "search_start T fresh = length pre + k"
    using lo hi by (simp_all add: k_def)
  have len: "length (r_data R) = length fresh" by (rule r(3))
  from GetNextRecordPos_record [OF t r0 r1 k buf, of chk crlf] g
  show ?thesis unfolding len s [symmetric] search_start_def by simp
qed

text \<open>The flag over one call and over any number of calls.\<close>

lemma call_flag:
  assumes "readNextChunkPair_interleaved chk T fl fr st = Inr (res, st')"
  shows "(usesCrlf st \<longrightarrow> usesCrlf st')
     \<and> (\<not> full_refill fl (bufferSize_left st) (mLeft_bytes st)
        \<and> \<not> full_refill fr (bufferSize_right st) (mRight_bytes st)
        \<longrightarrow> usesCrlf st' = usesCrlf st)"
  using assms
proof (cases rule: call_cases)
  case latched
  then show ?thesis by (simp add: acquired_both_def)
next
  case (abort_left L)
  with refill_flag [OF abort_left(2)] show ?thesis by simp
next
  case (abort_right L R)
  with refill_flag [OF abort_right(2)] refill_flag [OF abort_right(3)] show ?thesis by simp
next
  case (final L R)
  with refill_flag [OF final(2)] refill_flag [OF final(3)] show ?thesis by simp
next
  case (resync L R cL cR sizeL swapL fillL sizeR swapR fillR)
  with refill_flag [OF resync(2)] refill_flag [OF resync(3)] show ?thesis by simp
qed

lemma calls_flag:
  "calls chk T fs st = Inr (rs, st') \<Longrightarrow> usesCrlf st \<Longrightarrow> usesCrlf st'"
proof (induction fs arbitrary: st rs)
  case Nil
  then show ?case by simp
next
  case (Cons f fs)
  from Cons.prems(1) obtain res st1 rs1 where
    c: "readNextChunkPair_interleaved chk T (fst f) (snd f) st = Inr (res, st1)"
    and r: "calls chk T fs st1 = Inr (rs1, st')"
    by (auto split: sum.splits)
  from call_flag [OF c] Cons.prems(2) have "usesCrlf st1" by blast
  from Cons.IH [OF r this] show ?case .
qed

text \<open>
  Claim C7, as amended. A call never clears \<open>usesCrlf\<close>, and once the flag is set
  it is set after any number of further calls. A call in which neither side is refilled
  fully leaves it as it was, whatever the files hold. After a call that returns a pair,
  with well-formed records at the search position of every fully refilled side, the flag
  is set if and only if it was set before or a side was refilled fully and its records
  there are terminated by \<open>\r\n\<close>. The size adjustments follow the flag as the call
  leaves it: after the re-synchronisation the size of a fully refilled side's chunk is the
  cut point, where the carry-over begins, minus one, and minus one more exactly when the
  flag is set; in the call that sets \<open>eof\<close>, which leaves the flag as it was, the
  size of a chunk that read bytes is the number of pending bytes minus one, and minus one
  more exactly when the flag is set.
\<close>

theorem usesCrlf_latch:
  assumes call: "readNextChunkPair_interleaved chk T fl fr st = Inr (res, st')"
  shows "(usesCrlf st \<longrightarrow> usesCrlf st')
     \<and> (usesCrlf st' \<longrightarrow>
          (\<forall>fs rs st''. calls chk T fs st' = Inr (rs, st'') \<longrightarrow> usesCrlf st''))
     \<and> (\<not> full_refill fl (bufferSize_left st) (mLeft_bytes st)
        \<and> \<not> full_refill fr (bufferSize_right st) (mRight_bytes st)
        \<longrightarrow> usesCrlf st' = usesCrlf st)
     \<and> (res \<noteq> None
        \<and> (full_refill fl (bufferSize_left st) (mLeft_bytes st) \<longrightarrow>
             search_window tL preL a0 a1 postL (search_start T fl)
               (take (length fl) (pending_left st)))
        \<and> (full_refill fr (bufferSize_right st) (mRight_bytes st) \<longrightarrow>
             search_window tR preR b0 b1 postR (search_start T fr)
               (take (length fr) (pending_right st)))
        \<longrightarrow> usesCrlf st' =
              (usesCrlf st
               \<or> (full_refill fl (bufferSize_left st) (mLeft_bytes st) \<and> tL = [CR, LF])
               \<or> (full_refill fr (bufferSize_right st) (mRight_bytes st) \<and> tR = [CR, LF])))
     \<and> (\<forall>p. res = Some p \<and> \<not> eof st' \<longrightarrow>
          (full_refill fl (bufferSize_left st) (mLeft_bytes st) \<longrightarrow>
             chunk_size (leftpart p)
               = int (length fl) - bufferSize_left st' - 1 - (if usesCrlf st' then 1 else 0))
        \<and> (full_refill fr (bufferSize_right st) (mRight_bytes st) \<longrightarrow>
             chunk_size (rightpart p)
               = int (length fr) - bufferSize_right st' - 1 - (if usesCrlf st' then 1 else 0)))
     \<and> (\<forall>p. res = Some p \<and> eof st'
             \<and> bufferSize_left st < int (length fl) \<and> bufferSize_right st < int (length fr) \<longrightarrow>
          usesCrlf st' = usesCrlf st
        \<and> (mLeft_bytes st \<noteq> [] \<longrightarrow>
             chunk_size (leftpart p)
               = int (length (pending_left st)) - 1 - (if usesCrlf st' then 1 else 0))
        \<and> (mRight_bytes st \<noteq> [] \<longrightarrow>
             chunk_size (rightpart p)
               = int (length (pending_right st)) - 1 - (if usesCrlf st' then 1 else 0)))"
  (is "?latch \<and> ?session \<and> ?none \<and> ?iff \<and> ?resync \<and> ?final")
proof -
  let ?fullL = "full_refill fl (bufferSize_left st) (mLeft_bytes st)"
  let ?fullR = "full_refill fr (bufferSize_right st) (mRight_bytes st)"
  have A: "?latch \<and> ?none" by (rule call_flag [OF call])
  have S: ?session using calls_flag by blast
  have flags: "r_crlf R = (usesCrlf st \<or> (?fullL \<and> tL = [CR, LF]) \<or> (?fullR \<and> tR = [CR, LF]))"
    if L: "refill chk T fl (swapBuffer_left st) (bufferSize_left st) (mLeft_bytes st)
             (usesCrlf st) = Inr L"
      and R: "refill chk T fr (swapBuffer_right st) (bufferSize_right st) (mRight_bytes st)
             (r_crlf L) = Inr R"
      and wL: "?fullL \<longrightarrow> search_window tL preL a0 a1 postL (search_start T fl)
               (take (length fl) (pending_left st))"
      and wR: "?fullR \<longrightarrow> search_window tR preR b0 b1 postR (search_start T fr)
               (take (length fr) (pending_right st))"
    for L R
  proof -
    have l: "r_crlf L = (usesCrlf st \<or> (?fullL \<and> tL = [CR, LF]))"
    proof (cases ?fullL)
      case True
      with wL refill_full_flag [OF L True, of tL preL a0 a1 postL] show ?thesis
        by (simp add: pending_left_def)
    next
      case False
      with refill_flag [OF L] show ?thesis by simp
    qed
    have r: "r_crlf R = (r_crlf L \<or> (?fullR \<and> tR = [CR, LF]))"
    proof (cases ?fullR)
      case True
      with wR refill_full_flag [OF R True, of tR preR b0 b1 postR] show ?thesis
        by (simp add: pending_right_def)
    next
      case False
      with refill_flag [OF R] show ?thesis by simp
    qed
    from l r show ?thesis by blast
  qed
  have B: ?iff
  proof
    assume a: "res \<noteq> None
        \<and> (?fullL \<longrightarrow> search_window tL preL a0 a1 postL (search_start T fl)
               (take (length fl) (pending_left st)))
        \<and> (?fullR \<longrightarrow> search_window tR preR b0 b1 postR (search_start T fr)
               (take (length fr) (pending_right st)))"
    from call show "usesCrlf st' =
        (usesCrlf st \<or> (?fullL \<and> tL = [CR, LF]) \<or> (?fullR \<and> tR = [CR, LF]))"
    proof (cases rule: call_cases)
      case (final L R)
      from flags [OF final(2,3)] a final(9) show ?thesis by simp
    next
      case (resync L R cL cR sizeL swapL fillL sizeR swapR fillR)
      from flags [OF resync(2,3)] a resync(11) show ?thesis by simp
    qed (use a in simp_all)
  qed
  have C: ?resync
  proof (intro allI impI)
    fix p assume a: "res = Some p \<and> \<not> eof st'"
    from call show "(?fullL \<longrightarrow> chunk_size (leftpart p)
               = int (length fl) - bufferSize_left st' - 1 - (if usesCrlf st' then 1 else 0))
        \<and> (?fullR \<longrightarrow> chunk_size (rightpart p)
               = int (length fr) - bufferSize_right st' - 1 - (if usesCrlf st' then 1 else 0))"
    proof (cases rule: call_cases)
      case (final L R)
      with a show ?thesis by simp
    next
      case (resync L R cL cR sizeL swapL fillL sizeR swapR fillR)
      note kL = cut_side_Inr [OF resync(8)] and kR = cut_side_Inr [OF resync(9)]
      have u: "usesCrlf st' = r_crlf R" "bufferSize_left st' = fillL"
        "bufferSize_right st' = fillR" using resync(11) by simp_all
      have p: "chunk_size (leftpart p) = sizeL" "chunk_size (rightpart p) = sizeR"
        using resync(10) a by auto
      have "?fullL \<longrightarrow> r_cbufSize L = int (length fl)"
        using refill_Inr(7) [OF resync(2)] by blast
      moreover have "?fullR \<longrightarrow> r_cbufSize R = int (length fr)"
        using refill_Inr(7) [OF resync(3)] by blast
      ultimately show ?thesis using kL(1,2) kR(1,2) u p by simp
    qed (use a in simp_all)
  qed
  have D: ?final
  proof (intro allI impI)
    fix p assume a: "res = Some p \<and> eof st'
             \<and> bufferSize_left st < int (length fl) \<and> bufferSize_right st < int (length fr)"
    from call show "usesCrlf st' = usesCrlf st
        \<and> (mLeft_bytes st \<noteq> [] \<longrightarrow> chunk_size (leftpart p)
               = int (length (pending_left st)) - 1 - (if usesCrlf st' then 1 else 0))
        \<and> (mRight_bytes st \<noteq> [] \<longrightarrow> chunk_size (rightpart p)
               = int (length (pending_right st)) - 1 - (if usesCrlf st' then 1 else 0))"
    proof (cases rule: call_cases)
      case (final L R)
      note rL = refill_Inr [OF final(2)] and rR = refill_Inr [OF final(3)]
      have nL: "\<not> ?fullL" using rL(7) final(6) by blast
      have nR: "\<not> ?fullR" using rR(7) final(7) by blast
      have fL: "r_crlf L = usesCrlf st" using rL(8) nL by blast
      have fR: "r_crlf R = usesCrlf st" using rR(8) nR fL by simp
      have u: "usesCrlf st' = usesCrlf st" using final(9) fR by simp
      have p: "chunk_size (leftpart p) = r_size L" "chunk_size (rightpart p) = r_size R"
        using final(8) a by auto
      have gL: "take (nat (int (length fl) - bufferSize_left st)) (mLeft_bytes st) = mLeft_bytes st"
        using nL a by (auto simp: full_refill_def)
      have gR: "take (nat (int (length fr) - bufferSize_right st)) (mRight_bytes st) = mRight_bytes st"
        using nR a by (auto simp: full_refill_def)
      have sL: "mLeft_bytes st \<noteq> [] \<longrightarrow> r_size L = int (length (pending_left st)) - 1
                  - (if usesCrlf st then 1 else 0)"
        using rL(8) nL unfolding gL by (simp add: pending_left_def)
      have sR: "mRight_bytes st \<noteq> [] \<longrightarrow> r_size R = int (length (pending_right st)) - 1
                  - (if usesCrlf st then 1 else 0)"
        using rR(8) nR fL unfolding gR by (simp add: pending_right_def)
      from u p sL sR show ?thesis by simp
    next
      case (resync L R cL cR sizeL swapL fillL sizeR swapR fillR)
      with a show ?thesis by (simp add: acquired_both_def)
    qed (use a in simp_all)
  qed
  from A S B C D show ?thesis by blast
qed


section \<open>Concrete sessions\<close>

text \<open>
  Small inputs for the witnesses and counterexamples: records of eight bytes with
  \<open>\n\<close> and of twelve bytes with \<open>\r\n\<close>, chunk and swap buffers of 32 bytes, a reserve
  of 16 bytes, and pools that hand out zeroed buffers.
\<close>

definition rec8 :: string where
  "rec8 = ''@'' @ [LF] @ ''A'' @ [LF] @ ''+'' @ [LF] @ ''I'' @ [LF]"

definition rec12 :: string where
  "rec12 = ''@'' @ [CR, LF] @ ''A'' @ [CR, LF] @ ''+'' @ [CR, LF] @ ''I'' @ [CR, LF]"

definition zeros :: "nat \<Rightarrow> char list" where
  "zeros n = replicate n (CHR 0x00)"

text \<open>
  The record of \<open>rec8\<close> and of \<open>rec12\<close>, and a record of twelve bytes with \<open>\n\<close>.
\<close>

definition R8 :: fastq_record where
  "R8 = Record ''@'' ''A'' ''+'' ''I''"

definition R12 :: fastq_record where
  "R12 = Record ''@'' ''AAA'' ''+'' ''III''"

text \<open>The reader after a call, or after some calls, that returned.\<close>

definition after_call :: "fault + ('a \<times> FastqChunkReaderPair) \<Rightarrow> FastqChunkReaderPair" where
  "after_call x = snd (projr x)"

definition results_of :: "fault + ('a \<times> FastqChunkReaderPair) \<Rightarrow> 'a" where
  "results_of x = fst (projr x)"

lemma returned_eq:
  "\<not> isl x \<Longrightarrow> x = Inr (results_of x, after_call x)"
  by (cases x) (simp_all add: results_of_def after_call_def)

text \<open>
  Witness of claim C4: the state after the one call that reads two files of one record
  each, in which both sides read short and \<open>eof\<close> is set.
\<close>

definition drained :: FastqChunkReaderPair where
  "drained = after_call (readNextChunkPair_interleaved True 16 (zeros 32) (zeros 32)
                (open_pair 32 rec8 rec8))"

theorem eof_latched_calls_witness:
  "eof drained
   \<and> (\<exists>st'. calls True 16 [(zeros 32, zeros 32), (zeros 32, zeros 32)] drained
              = Inr (replicate (length [(zeros 32, zeros 32), (zeros 32, zeros 32)]) None, st')
     \<and> eof st'
     \<and> mLeft_bytes st' = mLeft_bytes drained \<and> mRight_bytes st' = mRight_bytes drained
     \<and> acquired (fastqPool_left st') = acquired (fastqPool_left drained)
          + length [(zeros 32, zeros 32), (zeros 32, zeros 32)]
     \<and> released (fastqPool_left st') = released (fastqPool_left drained)
          + length [(zeros 32, zeros 32), (zeros 32, zeros 32)]
     \<and> acquired (fastqPool_right st') = acquired (fastqPool_right drained)
          + length [(zeros 32, zeros 32), (zeros 32, zeros 32)]
     \<and> released (fastqPool_right st') = released (fastqPool_right drained)
          + length [(zeros 32, zeros 32), (zeros 32, zeros 32)])"
proof -
  have e: "eof drained" by code_simp
  from e eof_latched_calls [OF e] show ?thesis by (rule conjI)
qed

text \<open>
  Claim C7 as the specification states it, in its words: whether the first line
  terminator of a file is \<open>\r\n\<close>.
\<close>

fun first_terminator_crlf :: "char list \<Rightarrow> bool" where
  "first_terminator_crlf [] = False"
| "first_terminator_crlf (c # cs) =
     (if c = CR then take 1 cs = [LF]
      else if c = LF then False
      else first_terminator_crlf cs)"

text \<open>
  Counterexample to claim C7 as stated: both files are one record terminated by
  \<open>\r\n\<close>. The session is one pair and then \<^verbatim>\<open>NULL\<close>; both sides read short, so
  \<^verbatim>\<open>SkipToEol\<close> never runs and \<open>usesCrlf\<close> is false at the end.
\<close>

theorem usesCrlf_not_first_terminator:
  "first_terminator_crlf rec12
   \<and> \<not> isl (calls True 16 [(zeros 32, zeros 32), (zeros 32, zeros 32)]
              (open_pair 32 rec12 rec12))
   \<and> results_of (calls True 16 [(zeros 32, zeros 32), (zeros 32, zeros 32)]
              (open_pair 32 rec12 rec12))
      = [Some \<lparr>leftpart = \<lparr>chunk_data = rec12 @ zeros 20, chunk_size = 11\<rparr>,
               rightpart = \<lparr>chunk_data = rec12 @ zeros 20, chunk_size = 11\<rparr>\<rparr>, None]
   \<and> \<not> usesCrlf (after_call (calls True 16 [(zeros 32, zeros 32), (zeros 32, zeros 32)]
              (open_pair 32 rec12 rec12)))"
  by code_simp

text \<open>
  Witness of claim C7 as amended. Two files of three \<open>\r\n\<close> records, with a reserve
  of 24 bytes: the first call refills both sides fully, sets the flag and cuts at 12, with
  sizes of 10; the second reads both sides short, sets \<open>eof\<close>, keeps the flag, and
  gives sizes of 22 for 24 pending bytes; the flag is still set after that call and one
  more. Two files of five \<open>\n\<close> records, with a
  reserve of 16 bytes: the call refills both sides fully and leaves the flag unset.
\<close>

definition crlf_open :: FastqChunkReaderPair where
  "crlf_open = open_pair 32 (concat (replicate 3 rec12)) (concat (replicate 3 rec12))"

definition crlf_call1 :: "fault + (ChunkPair option \<times> FastqChunkReaderPair)" where
  "crlf_call1 = readNextChunkPair_interleaved True 24 (zeros 32) (zeros 32) crlf_open"

definition crlf_call2 :: "fault + (ChunkPair option \<times> FastqChunkReaderPair)" where
  "crlf_call2 = readNextChunkPair_interleaved True 24 (zeros 32) (zeros 32) (after_call crlf_call1)"

definition crlf_later :: "fault + (ChunkPair option list \<times> FastqChunkReaderPair)" where
  "crlf_later = calls True 24 [(zeros 32, zeros 32), (zeros 32, zeros 32)] (after_call crlf_call1)"

definition lf_open :: FastqChunkReaderPair where
  "lf_open = open_pair 32 (concat (replicate 5 rec8)) (concat (replicate 5 rec8))"

definition lf_call :: "fault + (ChunkPair option \<times> FastqChunkReaderPair)" where
  "lf_call = readNextChunkPair_interleaved True 16 (zeros 32) (zeros 32) lf_open"

theorem usesCrlf_latch_witness:
  "\<not> isl crlf_call1 \<and> results_of crlf_call1 \<noteq> None
   \<and> full_refill (zeros 32) (bufferSize_left crlf_open) (mLeft_bytes crlf_open)
   \<and> full_refill (zeros 32) (bufferSize_right crlf_open) (mRight_bytes crlf_open)
   \<and> search_window [CR, LF] [] R8 R8 (take 8 rec12) (search_start 24 (zeros 32))
        (take (length (zeros 32)) (pending_left crlf_open))
   \<and> search_window [CR, LF] [] R8 R8 (take 8 rec12) (search_start 24 (zeros 32))
        (take (length (zeros 32)) (pending_right crlf_open))
   \<and> \<not> usesCrlf crlf_open \<and> usesCrlf (after_call crlf_call1) \<and> \<not> eof (after_call crlf_call1)
   \<and> bufferSize_left (after_call crlf_call1) = 20 \<and> bufferSize_right (after_call crlf_call1) = 20
   \<and> chunk_size (leftpart (the (results_of crlf_call1))) = 10
   \<and> chunk_size (rightpart (the (results_of crlf_call1))) = 10
   \<and> \<not> isl crlf_call2 \<and> results_of crlf_call2 \<noteq> None \<and> eof (after_call crlf_call2)
   \<and> \<not> full_refill (zeros 32) (bufferSize_left (after_call crlf_call1))
          (mLeft_bytes (after_call crlf_call1))
   \<and> \<not> full_refill (zeros 32) (bufferSize_right (after_call crlf_call1))
          (mRight_bytes (after_call crlf_call1))
   \<and> mLeft_bytes (after_call crlf_call1) \<noteq> [] \<and> mRight_bytes (after_call crlf_call1) \<noteq> []
   \<and> length (pending_left (after_call crlf_call1)) = 24
   \<and> length (pending_right (after_call crlf_call1)) = 24
   \<and> usesCrlf (after_call crlf_call2)
   \<and> \<not> isl crlf_later \<and> usesCrlf (after_call crlf_later)
   \<and> chunk_size (leftpart (the (results_of crlf_call2))) = 22
   \<and> chunk_size (rightpart (the (results_of crlf_call2))) = 22
   \<and> \<not> isl lf_call \<and> results_of lf_call \<noteq> None
   \<and> full_refill (zeros 32) (bufferSize_left lf_open) (mLeft_bytes lf_open)
   \<and> full_refill (zeros 32) (bufferSize_right lf_open) (mRight_bytes lf_open)
   \<and> search_window [LF] (rec8 @ rec8) R8 R8 [] (search_start 16 (zeros 32))
        (take (length (zeros 32)) (pending_left lf_open))
   \<and> search_window [LF] (rec8 @ rec8) R8 R8 [] (search_start 16 (zeros 32))
        (take (length (zeros 32)) (pending_right lf_open))
   \<and> \<not> usesCrlf lf_open \<and> \<not> usesCrlf (after_call lf_call)"
proof -
  let ?p1 = "the (results_of crlf_call1)" and ?st1 = "after_call crlf_call1"
  let ?p2 = "the (results_of crlf_call2)" and ?st2 = "after_call crlf_call2"
  let ?p3 = "the (results_of lf_call)" and ?st3 = "after_call lf_call"
  have r1: "\<not> isl crlf_call1" and r2: "\<not> isl crlf_call2" and r3: "\<not> isl lf_call"
    by code_simp+
  have n1: "results_of crlf_call1 \<noteq> None" and n2: "results_of crlf_call2 \<noteq> None"
    and n3: "results_of lf_call \<noteq> None" by code_simp+
  from returned_eq [OF r1] returned_eq [OF r2] returned_eq [OF r3] n1 n2 n3
  have "crlf_call1 = Inr (Some ?p1, ?st1)" and "crlf_call2 = Inr (Some ?p2, ?st2)"
    and "lf_call = Inr (Some ?p3, ?st3)" by simp_all
  then have c1: "readNextChunkPair_interleaved True 24 (zeros 32) (zeros 32) crlf_open
      = Inr (Some ?p1, ?st1)"
    and c2: "readNextChunkPair_interleaved True 24 (zeros 32) (zeros 32) ?st1
      = Inr (Some ?p2, ?st2)"
    and c3: "readNextChunkPair_interleaved True 16 (zeros 32) (zeros 32) lf_open
      = Inr (Some ?p3, ?st3)"
    by (simp_all add: crlf_call1_def crlf_call2_def lf_call_def)
  have f1: "full_refill (zeros 32) (bufferSize_left crlf_open) (mLeft_bytes crlf_open)"
    "full_refill (zeros 32) (bufferSize_right crlf_open) (mRight_bytes crlf_open)"
    by code_simp+
  have w1: "search_window [CR, LF] [] R8 R8 (take 8 rec12) (search_start 24 (zeros 32))
        (take (length (zeros 32)) (pending_left crlf_open))"
    "search_window [CR, LF] [] R8 R8 (take 8 rec12) (search_start 24 (zeros 32))
        (take (length (zeros 32)) (pending_right crlf_open))"
    by code_simp+
  have u0: "\<not> usesCrlf crlf_open" and e1: "\<not> eof ?st1" by code_simp+
  have b1: "bufferSize_left ?st1 = 20" "bufferSize_right ?st1 = 20" by code_simp+
  have f2: "\<not> full_refill (zeros 32) (bufferSize_left ?st1) (mLeft_bytes ?st1)"
    "\<not> full_refill (zeros 32) (bufferSize_right ?st1) (mRight_bytes ?st1)"
    by code_simp+
  have m2: "mLeft_bytes ?st1 \<noteq> []" "mRight_bytes ?st1 \<noteq> []" by code_simp+
  have l2: "length (pending_left ?st1) = 24" "length (pending_right ?st1) = 24" by code_simp+
  have e2: "eof ?st2" by code_simp
  have room2: "bufferSize_left ?st1 < int (length (zeros 32))"
    "bufferSize_right ?st1 < int (length (zeros 32))" by code_simp+
  have z: "int (length (zeros 32)) = 32" by code_simp
  have f3: "full_refill (zeros 32) (bufferSize_left lf_open) (mLeft_bytes lf_open)"
    "full_refill (zeros 32) (bufferSize_right lf_open) (mRight_bytes lf_open)"
    by code_simp+
  have w3: "search_window [LF] (rec8 @ rec8) R8 R8 [] (search_start 16 (zeros 32))
        (take (length (zeros 32)) (pending_left lf_open))"
    "search_window [LF] (rec8 @ rec8) R8 R8 [] (search_start 16 (zeros 32))
        (take (length (zeros 32)) (pending_right lf_open))"
    by code_simp+
  have u3: "\<not> usesCrlf lf_open" by code_simp
  note t1 = usesCrlf_latch [OF c1, of "[CR, LF]" "[]" R8 R8 "take 8 rec12"
      "[CR, LF]" "[]" R8 R8 "take 8 rec12"]
  note t2 = usesCrlf_latch [OF c2]
  note t3 = usesCrlf_latch [OF c3, of "[LF]" "rec8 @ rec8" R8 R8 "[]"
      "[LF]" "rec8 @ rec8" R8 R8 "[]"]
  from t1 f1 w1 have u1: "usesCrlf ?st1" by simp
  have r4: "\<not> isl crlf_later" by code_simp
  from returned_eq [OF r4]
  have "calls True 24 [(zeros 32, zeros 32), (zeros 32, zeros 32)] ?st1
      = Inr (results_of crlf_later, after_call crlf_later)" by (simp add: crlf_later_def)
  with t1 u1 have u5: "usesCrlf (after_call crlf_later)" by blast
  from t1 e1 f1 u1 b1 z have s1: "chunk_size (leftpart ?p1) = 10" "chunk_size (rightpart ?p1) = 10"
    by simp_all
  from t2 u1 have u2: "usesCrlf ?st2" by blast
  from t2 e2 room2 m2 u2 l2 have s2: "chunk_size (leftpart ?p2) = 22"
    "chunk_size (rightpart ?p2) = 22" by simp_all
  from t3 f3 w3 u3 have u4: "\<not> usesCrlf ?st3" by simp
  from r1 n1 f1 w1 u0 u1 e1 b1 s1 r2 n2 e2 f2 m2 l2 u2 r4 u5 s2 r3 n3 f3 w3 u3 u4
  show ?thesis by blast
qed

text \<open>
  A round in which a side reads nothing: the left file holds four records and the right
  file nine. In the second call the left side keeps its carry-over of one record, the
  right side is refilled fully, \<open>eof\<close> is not set and the cut points are
  re-synchronised. Each chunk holds one record; the left chunk's \<open>size\<close> is 8 and
  covers the record with its last \<open>\n\<close>, the right chunk's \<open>size\<close> is 7 and
  stops before it.
\<close>

definition rec12lf :: string where
  "rec12lf = ''@'' @ [LF] @ ''AAA'' @ [LF] @ ''+'' @ [LF] @ ''III'' @ [LF]"

definition uneven :: "fault + (ChunkPair option list \<times> FastqChunkReaderPair)" where
  "uneven = calls True 16 [(zeros 32, zeros 32), (zeros 32, zeros 32)]
              (open_pair 32 (concat (replicate 4 rec8)) (concat (replicate 9 rec8)))"

lemma zero_read_size_covers_newline:
  "\<not> isl uneven \<and> \<not> eof (after_call uneven)
   \<and> results_of uneven ! 1 =
       Some \<lparr>leftpart = \<lparr>chunk_data = rec8 @ zeros 24, chunk_size = 8\<rparr>,
             rightpart = \<lparr>chunk_data = concat (replicate 4 rec8), chunk_size = 7\<rparr>\<rparr>
   \<and> newlines (rec8 @ zeros 24) 8 = 4
   \<and> newlines (concat (replicate 4 rec8)) 7 = 3"
  by code_simp

text \<open>
  Two \<open>\r\n\<close> files of three records each, of twelve bytes on the left and of twenty
  on the right, read in two calls.
\<close>

definition rec20 :: string where
  "rec20 = ''@'' @ [CR, LF] @ ''AAAAA'' @ [CR, LF] @ ''+'' @ [CR, LF] @ ''IIIII'' @ [CR, LF]"

definition crlf_uneven :: "fault + (ChunkPair option list \<times> FastqChunkReaderPair)" where
  "crlf_uneven = calls True 16 [(zeros 32, zeros 32), (zeros 32, zeros 32)]
     (open_pair 32 (concat (replicate 3 rec12)) (concat (replicate 3 rec20)))"

definition walked :: "fault + (ChunkPair option \<times> FastqChunkReaderPair)" where
  "walked = readNextChunkPair_interleaved True 16 (zeros 32) (zeros 32)
              (open_pair 32 (concat (replicate 5 rec8)) (concat (replicate 3 rec12lf)))"

text \<open>
  A balanced round: the left file holds five records of eight bytes, the right file three
  of twelve. Both sides are refilled fully, the left cut point is walked back from 24 to
  16, and both ranges hold eight newlines and two records.
\<close>

lemma resync_balances_newlines_instance:
  "\<not> isl walked
   \<and> full_refill (zeros 32) 0 (concat (replicate 5 rec8))
   \<and> full_refill (zeros 32) 0 (concat (replicate 3 rec12lf))
   \<and> cut_of (usesCrlf (after_call walked)) (leftpart (the (results_of walked))) = 16
   \<and> cut_of (usesCrlf (after_call walked)) (rightpart (the (results_of walked))) = 24
   \<and> newlines (chunk_data (leftpart (the (results_of walked)))) 16
       = newlines (chunk_data (rightpart (the (results_of walked)))) 24
   \<and> list_all wf_record [R8, R8] \<and> list_all wf_record [R12, R12]
   \<and> take 16 (chunk_data (leftpart (the (results_of walked)))) = concat (map (ser [LF]) [R8, R8])
   \<and> take 24 (chunk_data (rightpart (the (results_of walked)))) = concat (map (ser [LF]) [R12, R12])
   \<and> length [R8, R8] = length [R12, R12]"
proof -
  let ?p = "the (results_of walked)" and ?st' = "after_call walked"
  let ?st = "open_pair 32 (concat (replicate 5 rec8)) (concat (replicate 3 rec12lf))"
  have r: "\<not> isl walked" by code_simp
  have "results_of walked \<noteq> None" by code_simp
  with returned_eq [OF r] have "walked = Inr (Some ?p, ?st')" by simp
  then have c: "readNextChunkPair_interleaved True 16 (zeros 32) (zeros 32) ?st
      = Inr (Some ?p, ?st')" by (simp add: walked_def)
  have fl: "full_refill (zeros 32) (bufferSize_left ?st) (mLeft_bytes ?st)" by code_simp
  have fr: "full_refill (zeros 32) (bufferSize_right ?st) (mRight_bytes ?st)" by code_simp
  have fl': "full_refill (zeros 32) 0 (concat (replicate 5 rec8))" by code_simp
  have fr': "full_refill (zeros 32) 0 (concat (replicate 3 rec12lf))" by code_simp
  have cl: "cut_of (usesCrlf ?st') (leftpart ?p) = 16" by code_simp
  have cr: "cut_of (usesCrlf ?st') (rightpart ?p) = 24" by code_simp
  have wl: "list_all wf_record [R8, R8]" and wr: "list_all wf_record [R12, R12]"
    by (simp_all add: R8_def R12_def wf_record_def plain_def no_at_def)
  have tl: "take 16 (chunk_data (leftpart ?p)) = concat (map (ser [LF]) [R8, R8])"
    by code_simp
  have tr: "take 24 (chunk_data (rightpart ?p)) = concat (map (ser [LF]) [R12, R12])"
    by code_simp
  note t = resync_balances_newlines [OF c fl fr, of "[R8, R8]" "[R12, R12]", unfolded cl cr]
  from t have n: "newlines (chunk_data (leftpart ?p)) 16 = newlines (chunk_data (rightpart ?p)) 24"
    by blast
  from t wl wr tl tr have "length [R8, R8] = length [R12, R12]" by simp
  with r fl' fr' cl cr n wl wr tl tr show ?thesis by blast
qed

text \<open>
  Claim C1 (refuted on the code). The left file holds three \<open>\r\n\<close> records of
  twelve bytes, the right file three of twenty. The first call refills both sides fully,
  sets \<open>usesCrlf\<close> and returns one record on each side. In the second call the left
  side reads its last four bytes: the short-read branch takes \<open>size\<close> two below the
  end of the data and puts \<open>chunkEnd\<close> and \<open>cbufSize\<close> one above it, on the last
  \<open>\n\<close> of the file, which so is not counted. The right side is refilled fully,
  \<open>eof\<close> is not set, and the walk on the left stops one line late: the pair's left
  chunk is cut at 15, inside the third record, with five \<open>\n\<close> before the cut point
  against four on the right (the counts of lines 660 and 661), and four against three
  among the first \<open>size\<close> bytes.
\<close>

theorem resync_unbalanced_after_short_read:
  "\<not> isl crlf_uneven \<and> \<not> eof (after_call crlf_uneven) \<and> usesCrlf (after_call crlf_uneven)
   \<and> results_of crlf_uneven ! 0 =
       Some \<lparr>leftpart = \<lparr>chunk_data = rec12 @ rec12 @ take 8 rec12, chunk_size = 10\<rparr>,
             rightpart = \<lparr>chunk_data = rec20 @ take 12 rec20, chunk_size = 18\<rparr>\<rparr>
   \<and> results_of crlf_uneven ! 1 =
       Some \<lparr>leftpart = \<lparr>chunk_data = rec12 @ rec12 @ zeros 8, chunk_size = 13\<rparr>,
             rightpart = \<lparr>chunk_data = rec20 @ take 12 rec20, chunk_size = 18\<rparr>\<rparr>
   \<and> newlines (rec12 @ rec12 @ zeros 8) 13 = 4 \<and> newlines (rec20 @ take 12 rec20) 18 = 3
   \<and> count_line (rec12 @ rec12 @ zeros 8) 15 = Inr 5
   \<and> count_line (rec20 @ take 12 rec20) 20 = Inr 4
   \<and> take 15 (rec12 @ rec12 @ zeros 8) = rec12 @ take 3 rec12
   \<and> take 20 (rec20 @ take 12 rec20) = rec20"
  by code_simp










definition uneven3 :: "fault + (ChunkPair option list \<times> FastqChunkReaderPair)" where
  "uneven3 = calls True 16 [(zeros 32, zeros 32), (zeros 32, zeros 32), (zeros 32, zeros 32)]
               (open_pair 32 (concat (replicate 4 rec8)) (concat (replicate 9 rec8)))"

text \<open>
  Claim C5 (refuted on the code). When the left file is empty, the first call reads nothing
  into an empty chunk and returns \<^verbatim>\<open>NULL\<close> at once: both chunks were acquired, none
  is released, and \<open>eof\<close> is not set, so that every further call does the same. The
  path that finds \<open>eof\<close> set releases both chunks before it returns. The same happens
  at the end of a session on a left file of four records and a right file of nine: the
  third call returns \<^verbatim>\<open>NULL\<close> with the third chunk of each pool acquired, and no
  \<^verbatim>\<open>Release\<close> was called by the reader.
\<close>

theorem zero_read_abort_keeps_chunks:
  "(\<exists>st'. readNextChunkPair_interleaved chk T fresh_left fresh_right (open_pair n [] right)
           = Inr (None, st')
     \<and> \<not> eof st'
     \<and> acquired (fastqPool_left st') = 1 \<and> released (fastqPool_left st') = 0
     \<and> acquired (fastqPool_right st') = 1 \<and> released (fastqPool_right st') = 0)
   \<and> \<not> isl uneven3 \<and> length (results_of uneven3) = 3
   \<and> results_of uneven3 ! 0 \<noteq> None \<and> results_of uneven3 ! 1 \<noteq> None
   \<and> results_of uneven3 ! 2 = None
   \<and> \<not> eof (after_call uneven3)
   \<and> acquired (fastqPool_left (after_call uneven3)) = 3
   \<and> released (fastqPool_left (after_call uneven3)) = 0
   \<and> acquired (fastqPool_right (after_call uneven3)) = 3
   \<and> released (fastqPool_right (after_call uneven3)) = 0"
proof -
  have "\<exists>st'. readNextChunkPair_interleaved chk T fresh_left fresh_right (open_pair n [] right)
           = Inr (None, st')
     \<and> \<not> eof st'
     \<and> acquired (fastqPool_left st') = 1 \<and> released (fastqPool_left st') = 0
     \<and> acquired (fastqPool_right st') = 1 \<and> released (fastqPool_right st') = 0"
    by (simp add: readNextChunkPair_interleaved_def open_pair_def Let_def refill_def
        flush_swap_def source_Read_def write_at_def Acquire_def)
  moreover have "\<not> isl uneven3 \<and> length (results_of uneven3) = 3
   \<and> results_of uneven3 ! 0 \<noteq> None \<and> results_of uneven3 ! 1 \<noteq> None
   \<and> results_of uneven3 ! 2 = None
   \<and> \<not> eof (after_call uneven3)
   \<and> acquired (fastqPool_left (after_call uneven3)) = 3
   \<and> released (fastqPool_left (after_call uneven3)) = 0
   \<and> acquired (fastqPool_right (after_call uneven3)) = 3
   \<and> released (fastqPool_right (after_call uneven3)) = 0"
    by code_simp
  ultimately show ?thesis by blast
qed

text \<open>
  In a call in which the left side reads short, the walk starts on the byte after the
  data, which is whatever the buffer held before. Two files of three records each, the
  left ones of eight bytes and the right ones of twelve: with a \<open>\n\<close> at offset 24 of the
  buffer the pool hands out, the left chunk is cut inside the third record, in a zeroed
  buffer after the second.
\<close>

definition stale :: "char list" where
  "stale = zeros 24 @ [LF] @ zeros 7"

lemma short_read_walk_reads_stale_byte:
  "map_sum id (map_option (chunk_size \<circ> leftpart) \<circ> fst)
     (readNextChunkPair_interleaved True 16 stale (zeros 32)
        (open_pair 32 (concat (replicate 3 rec8)) (concat (replicate 3 rec12lf)))) = Inr (Some 17)
   \<and> map_sum id (map_option (chunk_size \<circ> leftpart) \<circ> fst)
     (readNextChunkPair_interleaved True 16 (zeros 32) (zeros 32)
        (open_pair 32 (concat (replicate 3 rec8)) (concat (replicate 3 rec12lf)))) = Inr (Some 15)"
  by code_simp

end
